theory Spec2Isabelle
  imports Complex_Main
begin

section \<open>The voro++ wrapper of hyperion: \<open>src/hyperion/grid/voropp_wrap.cc\<close>\<close>

text \<open>
  Conventions of the embedding.
  \<^item> A C++ \<open>double\<close> is a \<^typ>\<open>real\<close>: arithmetic is exact; rounding, infinities and
    not-a-number are not modelled. There are two exceptions. In the block grid the result
    of a computation in \<open>double\<close>s is cut to an \<open>int\<close>: there a \<open>double\<close> is a value of
    its own type, finite, infinite or NaN, and the rounded operations are parameters. And
    the code stores a quiet NaN as the padding of the vertex matrix: an entry of that
    matrix is a \<^typ>\<open>real option\<close>, and \<open>None\<close> is the NaN.
  \<^item> A C++ \<open>int\<close> is an \<^typ>\<open>int\<close>; sizes and positions in a vector are \<^typ>\<open>nat\<close>. An
    offset into a \<open>malloc\<close>ed buffer that the code computes as a product of \<open>int\<close>s is
    tested against the largest \<open>int\<close> of 32 bits; a number of bytes is a product of
    \<open>size_t\<close>s and wraps around at 64 bits.
  \<^item> \<open>malloc\<close> can fail: a buffer is an optional list, \<open>None\<close> the null pointer. The memory
    of a \<open>std::vector\<close> and of \<open>new\<close> is taken to be there (\<open>std::bad_alloc\<close> is not
    modelled).
  \<^item> A \<open>throw\<close> is the value \<open>Inl (InvalidArgument msg)\<close> or \<open>Inl (LengthError msg)\<close>,
    with the text that \<open>what()\<close> returns; an access the C++ standard
    leaves undefined (reading past the end of a vector, dereferencing an end iterator or
    a null pointer, the overflow of an \<open>int\<close>, a conversion to \<open>int\<close> that does not fit)
    is the value \<open>Inl UndefinedBehaviour\<close>.
  \<^item> Printing under \<open>verbose\<close> is left out.
\<close>

datatype error = InvalidArgument string | LengthError string | UndefinedBehaviour

subsection \<open>Walls (\<open>add_walls\<close>, lines 76-116)\<close>

datatype wall =
    Wall_sphere real real real real
  | Wall_cylinder real real real real real real real

text \<open>
  The static \<open>wall_ptr\<close> (one slot) and the walls registered in the container.
\<close>

record wall_state =
  wall_ptr :: "wall option"
  con_walls :: "wall list"

definition register_wall :: "wall \<Rightarrow> wall_state \<Rightarrow> wall_state" where
  "register_wall w ws = ws\<lparr>wall_ptr := Some w, con_walls := con_walls ws @ [w]\<rparr>"

definition add_sphere :: "wall_state \<Rightarrow> real list \<Rightarrow> int \<Rightarrow> error + wall_state" where
  "add_sphere ws wall_args_arr n_wall_args =
     (if n_wall_args \<noteq> 4
      then Inl (InvalidArgument
             ''invalid number of arguments for a 'sphere' wall, exactly 4 are needed'')
      else if length wall_args_arr < 4 then Inl UndefinedBehaviour
      else if wall_args_arr ! 3 \<le> 0
      then Inl (InvalidArgument ''the radius of a 'sphere' wall must be strictly positive'')
      else Inr (register_wall
             (Wall_sphere (wall_args_arr ! 0) (wall_args_arr ! 1) (wall_args_arr ! 2)
                (wall_args_arr ! 3)) ws))"

definition add_cylinder :: "wall_state \<Rightarrow> real list \<Rightarrow> int \<Rightarrow> error + wall_state" where
  "add_cylinder ws wall_args_arr n_wall_args =
     (if n_wall_args \<noteq> 7
      then Inl (InvalidArgument
             ''invalid number of arguments for a 'cylinder' wall, exactly 7 are needed'')
      else if length wall_args_arr < 7 then Inl UndefinedBehaviour
      else if wall_args_arr ! 6 \<le> 0
      then Inl (InvalidArgument ''the radius of a 'cylinder' wall must be strictly positive'')
      else Inr (register_wall
             (Wall_cylinder (wall_args_arr ! 0) (wall_args_arr ! 1) (wall_args_arr ! 2)
                (wall_args_arr ! 3) (wall_args_arr ! 4) (wall_args_arr ! 5)
                (wall_args_arr ! 6)) ws))"

text \<open>
  The two \<open>if (std::strcmp(...) == 0)\<close> blocks run one after the other (the second is not
  an \<open>else\<close>); a \<open>throw\<close> in the first leaves the function.
\<close>

definition add_walls :: "wall_state \<Rightarrow> string \<Rightarrow> real list \<Rightarrow> int \<Rightarrow> error + wall_state" where
  "add_walls ws wall_str wall_args_arr n_wall_args =
     (case (if wall_str = ''sphere'' then add_sphere ws wall_args_arr n_wall_args else Inr ws) of
        Inl e \<Rightarrow> Inl e
      | Inr ws1 \<Rightarrow>
          (if wall_str = ''cylinder'' then add_cylinder ws1 wall_args_arr n_wall_args
           else Inr ws1))"

definition is_invalid_argument :: "error + 'a \<Rightarrow> bool" where
  "is_invalid_argument r = (case r of Inl (InvalidArgument m) \<Rightarrow> True | _ \<Rightarrow> False)"

subsection \<open>Reading a vertex of a cell\<close>

type_synonym point = "real \<times> real \<times> real"

text \<open>
  \<open>tmp_vertices->begin() + v*3\<close>, read at offsets 0, 1 and 2: the coordinates of vertex
  \<open>v\<close> in the flat coordinate vector of the cell. Outside the vector the read is undefined.
\<close>

definition vertex_at :: "real list \<Rightarrow> int \<Rightarrow> error + point" where
  "vertex_at verts v =
     (if 0 \<le> v \<and> nat v * 3 + 2 < length verts
      then Inr (verts ! (nat v * 3), verts ! (nat v * 3 + 1), verts ! (nat v * 3 + 2))
      else Inl UndefinedBehaviour)"

subsection \<open>Volume of a tetrahedron (\<open>tetra_volume\<close>, lines 119-136)\<close>

fun tetra_volume :: "point \<Rightarrow> point \<Rightarrow> point \<Rightarrow> point \<Rightarrow> real" where
  "tetra_volume (x0, y0, z0) (x1, y1, z1) (x2, y2, z2) (x3, y3, z3) =
     (let a = x1 - x0; b = y1 - y0; c = z1 - z0;
          d = x2 - x0; e = y2 - y0; f = z2 - z0;
          g = x3 - x0; h = y3 - y0; i = z3 - z0
      in \<bar>a * (e * i - f * h) - b * (d * i - f * g) + c * (d * h - e * g)\<bar> / 6)"

text \<open>
  The specification's words, for comparison: the determinant of the matrix whose rows are
  the three edge vectors, by the rule of Sarrus.
\<close>

definition vec_sub :: "point \<Rightarrow> point \<Rightarrow> point" where
  "vec_sub p q = (case (p, q) of ((px, py, pz), (qx, qy, qz)) \<Rightarrow> (px - qx, py - qy, pz - qz))"

definition spec_det3 :: "point \<Rightarrow> point \<Rightarrow> point \<Rightarrow> real" where
  "spec_det3 r1 r2 r3 =
     (case (r1, r2, r3) of ((a, b, c), (d, e, f), (g, h, i)) \<Rightarrow>
        a * e * i + b * f * g + c * d * h - c * e * g - b * d * i - a * f * h)"

subsection \<open>The random number generator\<close>

text \<open>
  \<open>std::rand()\<close> has a hidden state and returns a value between 0 and \<open>RAND_MAX\<close>.
  \<open>RAND_MAX\<close> is a constant of the C library, not of this repository, and is a field of
  the state here; the results of the successive calls are a sequence \<open>draws\<close>, reduced to
  the range that \<open>std::rand\<close> guarantees.
\<close>

record rand_state =
  RAND_MAX :: nat
  draws :: "nat \<Rightarrow> nat"
  calls :: nat

definition std_rand :: "rand_state \<Rightarrow> nat \<times> rand_state" where
  "std_rand st = (draws st (calls st) mod (RAND_MAX st + 1), st\<lparr>calls := calls st + 1\<rparr>)"

subsection \<open>A point in a tetrahedron (\<open>sample_point_in_tetra\<close>, lines 138-165)\<close>

text \<open>The two folds of lines 145-158, on the three draws.\<close>

definition fold_first :: "real \<times> real \<times> real \<Rightarrow> real \<times> real \<times> real" where
  "fold_first stu = (case stu of (s, t, u) \<Rightarrow>
     if s + t > 1 then (1 - s, 1 - t, u) else (s, t, u))"

definition fold_second :: "real \<times> real \<times> real \<Rightarrow> real \<times> real \<times> real" where
  "fold_second stu = (case stu of (s, t, u) \<Rightarrow>
     if t + u > 1 then (s, 1 - u, 1 - s - t)
     else if s + t + u > 1 then (1 - t - u, t, s + t + u - 1)
     else (s, t, u))"

definition fold_cube :: "real \<Rightarrow> real \<Rightarrow> real \<Rightarrow> real \<times> real \<times> real" where
  "fold_cube s t u = fold_second (fold_first (s, t, u))"

text \<open>Lines 160-164: the combination of the four vertices with weights \<open>a, s, t, u\<close>.\<close>

definition combine :: "real \<times> real \<times> real \<Rightarrow> point \<Rightarrow> point \<Rightarrow> point \<Rightarrow> point \<Rightarrow> point" where
  "combine stu p0 p1 p2 p3 =
     (case (stu, p0, p1, p2, p3) of
        ((s, t, u), (x0, y0, z0), (x1, y1, z1), (x2, y2, z2), (x3, y3, z3)) \<Rightarrow>
          (let a = 1 - s - t - u
           in (x0 * a + x1 * s + x2 * t + x3 * u,
               y0 * a + y1 * s + y2 * t + y3 * u,
               z0 * a + z1 * s + z2 * t + z3 * u)))"

definition unit_draw :: "rand_state \<Rightarrow> real \<times> rand_state" where
  "unit_draw st = (case std_rand st of (r, st') \<Rightarrow> (real r / (real (RAND_MAX st) + 1), st'))"

definition sample_point_in_tetra ::
  "rand_state \<Rightarrow> point \<Rightarrow> point \<Rightarrow> point \<Rightarrow> point \<Rightarrow> point \<times> rand_state" where
  "sample_point_in_tetra st p0 p1 p2 p3 =
     (case unit_draw st of (s, st1) \<Rightarrow>
      case unit_draw st1 of (t, st2) \<Rightarrow>
      case unit_draw st2 of (u, st3) \<Rightarrow>
        (combine (fold_cube s t u) p0 p1 p2 p3, st3))"

subsection \<open>Decomposition of a cell into tetrahedra (lines 280-316)\<close>

text \<open>
  The state of the decomposition: \<open>t_vert\<close> (four vertex indices for each tetrahedron),
  \<open>c_vol\<close> (the cumulative volumes) and the running \<open>vol\<close>.
\<close>

type_synonym tetra_acc = "int list \<times> real list \<times> real"

text \<open>The coordinates of four vertices of the cell, given by their indices.\<close>

definition four_vertices ::
  "real list \<Rightarrow> int \<Rightarrow> int \<Rightarrow> int \<Rightarrow> int \<Rightarrow> error + (point \<times> point \<times> point \<times> point)" where
  "four_vertices verts a b c d =
     (case vertex_at verts a of Inl e \<Rightarrow> Inl e | Inr v0 \<Rightarrow>
       (case vertex_at verts b of Inl e \<Rightarrow> Inl e | Inr v1 \<Rightarrow>
         (case vertex_at verts c of Inl e \<Rightarrow> Inl e | Inr v2 \<Rightarrow>
           (case vertex_at verts d of Inl e \<Rightarrow> Inl e | Inr v3 \<Rightarrow> Inr (v0, v1, v2, v3)))))"

text \<open>
  The \<open>for\<close> loop of lines 302-313 over \<open>k\<close>, for the face whose count is at position
  \<open>j\<close>; \<open>hi\<close> is \<open>j + nfv\<close>. The caller has checked that the face lies inside \<open>f_vert\<close>.
\<close>

function fan_loop ::
  "int list \<Rightarrow> real list \<Rightarrow> nat \<Rightarrow> nat \<Rightarrow> nat \<Rightarrow> tetra_acc \<Rightarrow> error + tetra_acc" where
  "fan_loop f_vert verts j hi k (t_vert, c_vol, vol) =
     (if k < hi then
        (case four_vertices verts 0 (f_vert ! (j + 1)) (f_vert ! k) (f_vert ! (k + 1)) of
           Inl e \<Rightarrow> Inl e
         | Inr (v0, v1, v2, v3) \<Rightarrow>
             (let t_vol = tetra_volume v0 v1 v2 v3
              in fan_loop f_vert verts j hi (k + 1)
                   (t_vert @ [0, f_vert ! (j + 1), f_vert ! k, f_vert ! (k + 1)],
                    c_vol @ [vol + t_vol], vol + t_vol)))
      else Inr (t_vert, c_vol, vol))"
  by pat_completeness auto
termination
  by (relation "measure (\<lambda>(f_vert, verts, j, hi, k, acc). hi - k)") auto

declare fan_loop.simps [simp del]

text \<open>
  The \<open>while\<close> loop of lines 286-316 over the faces. \<open>std::find\<close> over a range whose end
  lies before its start (a negative count) or after the end of \<open>f_vert\<close> is undefined.
  With a count that is not negative \<open>j\<close> never decreases, so it is a \<^typ>\<open>nat\<close>.
\<close>

function face_loop :: "int list \<Rightarrow> real list \<Rightarrow> nat \<Rightarrow> tetra_acc \<Rightarrow> error + tetra_acc" where
  "face_loop f_vert verts j acc =
     (if j < length f_vert then
        (let nfv = f_vert ! j in
         if nfv < 0 \<or> length f_vert < j + 1 + nat nfv then Inl UndefinedBehaviour
         else if 0 \<in> set (take (nat nfv) (drop (j + 1) f_vert))
         then face_loop f_vert verts (j + nat nfv + 1) acc
         else (case fan_loop f_vert verts j (j + nat nfv) (j + 2) acc of
                 Inl e \<Rightarrow> Inl e
               | Inr acc' \<Rightarrow> face_loop f_vert verts (j + nat nfv + 1) acc'))
      else Inr acc)"
  by pat_completeness auto
termination
  by (relation "measure (\<lambda>(f_vert, verts, j, acc). length f_vert - j)") auto

declare face_loop.simps [simp del]

definition decompose :: "int list \<Rightarrow> real list \<Rightarrow> error + tetra_acc" where
  "decompose f_vert verts = face_loop f_vert verts 0 ([], [], 0)"

text \<open>
  The specification's words, for comparison: the faces of the face-vertex list, one list
  of vertex indices for each face; the fan of a face; the decomposition.
\<close>

function spec_faces :: "int list \<Rightarrow> int list list" where
  "spec_faces [] = []"
| "spec_faces (n # rest) = take (nat n) rest # spec_faces (drop (nat n) rest)"
  by pat_completeness auto
termination
  by (relation "measure length") auto

definition spec_fan :: "int list \<Rightarrow> (int \<times> int \<times> int \<times> int) list" where
  "spec_fan face = map (\<lambda>i. (0, face ! 0, face ! i, face ! (i + 1))) [1..<length face - 1]"

definition spec_tetras :: "int list \<Rightarrow> (int \<times> int \<times> int \<times> int) list" where
  "spec_tetras f_vert = concat (map spec_fan (filter (\<lambda>face. 0 \<notin> set face) (spec_faces f_vert)))"

definition flatten4 :: "(int \<times> int \<times> int \<times> int) list \<Rightarrow> int list" where
  "flatten4 ts = concat (map (\<lambda>(a, b, c, d). [a, b, c, d]) ts)"

text \<open>A face-vertex list is well formed when every count is followed by that many indices.\<close>

function wf_faces :: "int list \<Rightarrow> bool" where
  "wf_faces [] = True"
| "wf_faces (n # rest) = (0 \<le> n \<and> nat n \<le> length rest \<and> wf_faces (drop (nat n) rest))"
  by pat_completeness auto
termination
  by (relation "measure length") auto

text \<open>The volume of the tetrahedron with the given four vertex indices.\<close>

definition tetra_vol_of :: "real list \<Rightarrow> int \<times> int \<times> int \<times> int \<Rightarrow> real" where
  "tetra_vol_of verts t = (case t of (a, b, c, d) \<Rightarrow>
     (case four_vertices verts a b c d of
        Inr (v0, v1, v2, v3) \<Rightarrow> tetra_volume v0 v1 v2 v3
      | Inl e \<Rightarrow> 0))"

text \<open>The tetrahedra stored in \<open>t_vert\<close>, four indices each.\<close>

fun group4 :: "int list \<Rightarrow> (int \<times> int \<times> int \<times> int) list" where
  "group4 (a # b # c # d # rest) = (a, b, c, d) # group4 rest"
| "group4 rest = []"

text \<open>The running sums of a list, started at \<open>a\<close>.\<close>

fun cumsum :: "real \<Rightarrow> real list \<Rightarrow> real list" where
  "cumsum a [] = []"
| "cumsum a (x # xs) = (a + x) # cumsum (a + x) xs"

text \<open>
  What the cell engine guarantees of a cell: a well-formed face-vertex list whose indices
  are vertices of the cell, and a vertex 0.
\<close>

definition valid_index :: "real list \<Rightarrow> int \<Rightarrow> bool" where
  "valid_index verts v = (0 \<le> v \<and> nat v * 3 + 2 < length verts)"

definition valid_cell :: "int list \<Rightarrow> real list \<Rightarrow> bool" where
  "valid_cell f_vert verts =
     (wf_faces f_vert \<and> valid_index verts 0 \<and>
      (\<forall>face \<in> set (spec_faces f_vert). \<forall>v \<in> set face. valid_index verts v))"



text \<open>The tetrahedra of the fan of one face, as \<open>fan_loop\<close> walks it.\<close>

definition fan_of :: "int list \<Rightarrow> nat \<Rightarrow> nat \<Rightarrow> nat \<Rightarrow> (int \<times> int \<times> int \<times> int) list" where
  "fan_of f_vert j k hi = map (\<lambda>m. (0, f_vert ! (j + 1), f_vert ! m, f_vert ! (m + 1))) [k..<hi]"

text \<open>The accumulator \<open>acc'\<close> is \<open>acc\<close> extended by the tetrahedra \<open>ts\<close>.\<close>

definition acc_extends ::
  "real list \<Rightarrow> tetra_acc \<Rightarrow> tetra_acc \<Rightarrow> (int \<times> int \<times> int \<times> int) list \<Rightarrow> bool" where
  "acc_extends verts acc acc' ts =
     (fst acc' = fst acc @ flatten4 ts \<and>
      fst (snd acc') = fst (snd acc) @ cumsum (snd (snd acc)) (map (tetra_vol_of verts) ts) \<and>
      snd (snd acc') = snd (snd acc) + sum_list (map (tetra_vol_of verts) ts))"

subsection \<open>Symmetry of the neighbour lists (lines 341-348)\<close>

text \<open>
  The inner loop over \<open>j\<close> for the site \<open>idx\<close>. Its bound \<open>n_list[idx].size()\<close> is read
  anew at every turn. A neighbour that is not negative is used as an index into \<open>n_list\<close>;
  outside \<open>n_list\<close> this is undefined.
\<close>

function sym_inner :: "nat \<Rightarrow> nat \<Rightarrow> int list list \<Rightarrow> error + int list list" where
  "sym_inner idx j n_list =
     (if j < length (n_list ! idx) then
        (let b = n_list ! idx ! j in
         if 0 \<le> b then
           (if nat b < length n_list then
              (if int idx \<notin> set (n_list ! nat b)
               then sym_inner idx (j + 1) (n_list[nat b := n_list ! nat b @ [int idx]])
               else sym_inner idx (j + 1) n_list)
            else Inl UndefinedBehaviour)
         else sym_inner idx (j + 1) n_list)
      else Inr n_list)"
  by pat_completeness auto
termination
proof (relation "measure (\<lambda>(idx, j, n_list). length (n_list ! idx) - j)")
  show "wf (measure (\<lambda>(idx, j, n_list). length (n_list ! idx) - j))" by simp
next
  fix idx j :: nat and n_list :: "int list list" and x :: int
  assume j: "j < length (n_list ! idx)" and x: "x = n_list ! idx ! j"
    and "0 \<le> x" and "nat x < length n_list" and notin: "int idx \<notin> set (n_list ! nat x)"
  have "nat x \<noteq> idx"
  proof
    assume e: "nat x = idx"
    then have "int idx = x" using \<open>0 \<le> x\<close> by simp
    then have "int idx \<in> set (n_list ! idx)" using j x by simp
    with notin e show False by simp
  qed
  then have "n_list[nat x := n_list ! nat x @ [int idx]] ! idx = n_list ! idx" by simp
  then show "((idx, j + 1, n_list[nat x := n_list ! nat x @ [int idx]]), idx, j, n_list)
        \<in> measure (\<lambda>(idx, j, n_list). length (n_list ! idx) - j)"
    using j by simp
qed auto

declare sym_inner.simps [simp del]

function sym_outer :: "nat \<Rightarrow> nat \<Rightarrow> int list list \<Rightarrow> error + int list list" where
  "sym_outer idx nsites n_list =
     (if idx < nsites then
        (case sym_inner idx 0 n_list of
           Inl e \<Rightarrow> Inl e
         | Inr n_list' \<Rightarrow> sym_outer (idx + 1) nsites n_list')
      else Inr n_list)"
  by pat_completeness auto
termination
  by (relation "measure (\<lambda>(idx, nsites, n_list). nsites - idx)") auto

declare sym_outer.simps [simp del]

text \<open>
  The pass over all sites. \<open>n_list\<close> is built with \<open>nsites\<close> entries (line 203) and
  never changes its size, so the bound of the outer loop is its length.
\<close>

definition symmetrize :: "int list list \<Rightarrow> error + int list list" where
  "symmetrize n_list = sym_outer 0 (length n_list) n_list"

text \<open>
  What the cell engine guarantees of the neighbours: a neighbour is a wall marker
  (negative) or the id of a site.
\<close>

definition ids_in_range :: "int list list \<Rightarrow> bool" where
  "ids_in_range n_list = (\<forall>l \<in> set n_list. \<forall>x \<in> set l. x < int (length n_list))"

text \<open>Every new list is the old one followed by values that are not negative.\<close>

definition appends_site_ids :: "int list list \<Rightarrow> int list list \<Rightarrow> bool" where
  "appends_site_ids old new =
     (length new = length old \<and>
      (\<forall>i < length old. take (length (old ! i)) (new ! i) = old ! i \<and>
         (\<forall>x \<in> set (drop (length (old ! i)) (new ! i)). 0 \<le> x)))"

text \<open>The entry at position \<open>k\<close> of the list of site \<open>a\<close> has its mirror entry.\<close>

definition mirrored :: "int list list \<Rightarrow> nat \<Rightarrow> nat \<Rightarrow> bool" where
  "mirrored n_list a k =
     (0 \<le> n_list ! a ! k \<longrightarrow>
        nat (n_list ! a ! k) < length n_list \<and> int a \<in> set (n_list ! nat (n_list ! a ! k)))"

text \<open>The invariant of the two loops: the entries already visited are mirrored.\<close>

definition sym_inv :: "nat \<Rightarrow> nat \<Rightarrow> int list list \<Rightarrow> bool" where
  "sym_inv idx j n_list =
     (\<forall>a < length n_list. \<forall>k < length (n_list ! a).
        (a < idx \<or> (a = idx \<and> k < j)) \<longrightarrow> mirrored n_list a k)"

subsection \<open>The widest row (\<open>size_cmp\<close>, lines 61-65; \<open>std::max_element\<close>, lines 351 and 366)\<close>

definition size_cmp :: "'a list \<Rightarrow> 'a list \<Rightarrow> bool" where
  "size_cmp a b = (length a < length b)"

text \<open>
  \<open>std::max_element(first, last, cmp)\<close>: the first element that no later element
  exceeds; on an empty range it returns \<open>last\<close>, here \<open>None\<close>.
\<close>

fun max_element_loop :: "('a \<Rightarrow> 'a \<Rightarrow> bool) \<Rightarrow> 'a \<Rightarrow> 'a list \<Rightarrow> 'a" where
  "max_element_loop cmp largest [] = largest"
| "max_element_loop cmp largest (x # xs) =
     max_element_loop cmp (if cmp largest x then x else largest) xs"

definition max_element :: "('a \<Rightarrow> 'a \<Rightarrow> bool) \<Rightarrow> 'a list \<Rightarrow> 'a option" where
  "max_element cmp xs = (case xs of [] \<Rightarrow> None | x # rest \<Rightarrow> Some (max_element_loop cmp x rest))"

text \<open>
  \<open>std::max_element(rows.begin(), rows.end(), size_cmp)->size()\<close>: the iterator is
  dereferenced without a test, which is undefined for the \<open>end\<close> iterator.
\<close>

definition max_size :: "'a list list \<Rightarrow> error + nat" where
  "max_size rows =
     (case max_element size_cmp rows of
        None \<Rightarrow> Inl UndefinedBehaviour
      | Some row \<Rightarrow> Inr (length row))"

subsection \<open>Integers of 32 and 64 bits\<close>

text \<open>
  An \<open>int\<close> has 32 bits. Where the code multiplies two \<open>int\<close>s that are not negative
  (an offset into a buffer), the model computes the product as a \<^typ>\<open>nat\<close> and tests
  that it fits: the overflow of a signed product is undefined.
\<close>

definition INT_MAX :: nat where
  "INT_MAX = 2147483647"

definition fits_int :: "nat \<Rightarrow> bool" where
  "fits_int n = (n \<le> INT_MAX)"

text \<open>
  A \<open>size_t\<close> has 64 bits and wraps around: the conversion of an \<open>int\<close> (a negative one
  becomes a huge size) and the product of two sizes.
\<close>

definition size_t_of_int :: "int \<Rightarrow> nat" where
  "size_t_of_int i = nat (i mod 18446744073709551616)"

definition size_mul :: "nat \<Rightarrow> nat \<Rightarrow> nat" where
  "size_mul a b = (a * b) mod 18446744073709551616"

definition sizeof_int :: nat where
  "sizeof_int = 4"

definition sizeof_double :: nat where
  "sizeof_double = 8"

subsection \<open>Buffers (\<open>malloc\<close>, \<open>std::copy\<close>, \<open>std::fill\<close>)\<close>

text \<open>
  A buffer is a pointer returned by \<open>malloc\<close>: \<open>None\<close> is the null pointer, which the
  code never tests for. Whether an allocation of so many bytes succeeds is decided
  outside the program (\<open>ok\<close>). The contents of fresh storage are indeterminate; \<open>junk\<close>
  stands for what happens to be there. The code writes to these buffers and never reads
  them.
\<close>

definition malloc :: "(nat \<Rightarrow> bool) \<Rightarrow> nat \<Rightarrow> nat \<Rightarrow> 'a \<Rightarrow> 'a list option" where
  "malloc ok elem_size bytes junk =
     (if ok bytes then Some (replicate (bytes div elem_size) junk) else None)"

text \<open>
  \<open>std::copy(src.begin(), src.end(), buf + off)\<close> and \<open>std::fill(buf + lo, buf + hi, v)\<close>
  on storage that exists; writing outside it, or a range that ends before it starts, is
  undefined.
\<close>

definition std_copy :: "'a list \<Rightarrow> nat \<Rightarrow> 'a list \<Rightarrow> error + 'a list" where
  "std_copy src off buf =
     (if off + length src \<le> length buf
      then Inr (take off buf @ src @ drop (off + length src) buf)
      else Inl UndefinedBehaviour)"

definition std_fill :: "nat \<Rightarrow> nat \<Rightarrow> 'a \<Rightarrow> 'a list \<Rightarrow> error + 'a list" where
  "std_fill lo hi v buf =
     (if lo \<le> hi \<and> hi \<le> length buf
      then Inr (take lo buf @ replicate (hi - lo) v @ drop hi buf)
      else Inl UndefinedBehaviour)"

text \<open>
  The same on a buffer. On the null pointer only the empty range at offset 0 is defined
  (nothing is written and the pointer is not moved).
\<close>

definition buf_copy :: "'a list \<Rightarrow> nat \<Rightarrow> 'a list option \<Rightarrow> error + 'a list option" where
  "buf_copy src off buf =
     (case buf of
        None \<Rightarrow> if src = [] \<and> off = 0 then Inr None else Inl UndefinedBehaviour
      | Some b \<Rightarrow> (case std_copy src off b of Inl e \<Rightarrow> Inl e | Inr b' \<Rightarrow> Inr (Some b')))"

definition buf_fill :: "nat \<Rightarrow> nat \<Rightarrow> 'a \<Rightarrow> 'a list option \<Rightarrow> error + 'a list option" where
  "buf_fill lo hi v buf =
     (case buf of
        None \<Rightarrow> if lo = 0 \<and> hi = 0 then Inr None else Inl UndefinedBehaviour
      | Some b \<Rightarrow> (case std_fill lo hi v b of Inl e \<Rightarrow> Inl e | Inr b' \<Rightarrow> Inr (Some b')))"

text \<open>What a buffer holds; the null pointer holds nothing.\<close>

definition buffer_cells :: "'a list option \<Rightarrow> 'a list" where
  "buffer_cells buf = (case buf of None \<Rightarrow> [] | Some b \<Rightarrow> b)"

subsection \<open>Packing ragged rows into a dense matrix (lines 350-362 and 364-377)\<close>

text \<open>
  The loop over \<open>idx\<close> that fills the matrix: row \<open>idx\<close> starts at \<open>max_n * idx\<close>, a
  product of two \<open>int\<close>s; it takes the list of site \<open>idx\<close> and then the padding value up
  to the end of the row.
\<close>

function pack_loop ::
  "'a \<Rightarrow> nat \<Rightarrow> 'a list list \<Rightarrow> nat \<Rightarrow> nat \<Rightarrow> 'a list option \<Rightarrow> error + 'a list option" where
  "pack_loop pad max_n rows nsites idx buf =
     (if idx < nsites then
        (if idx < length rows \<and> fits_int (max_n * idx) then
           (case buf_copy (rows ! idx) (max_n * idx) buf of
              Inl e \<Rightarrow> Inl e
            | Inr buf1 \<Rightarrow>
                (case buf_fill (max_n * idx + length (rows ! idx)) (max_n * idx + max_n) pad buf1 of
                   Inl e \<Rightarrow> Inl e
                 | Inr buf2 \<Rightarrow> pack_loop pad max_n rows nsites (idx + 1) buf2))
         else Inl UndefinedBehaviour)
      else Inr buf)"
  by pat_completeness auto
termination
  by (relation "measure (\<lambda>(pad, max_n, rows, nsites, idx, buf). nsites - idx)") auto

declare pack_loop.simps [simp del]

text \<open>
  Lines 350-362 (neighbours, padded with -10) and 365-377 (vertex coordinates, padded with
  a quiet NaN) are the same code on two element types. First the widest row, stored in
  an \<open>int\<close> (\<open>*max_nn\<close>, \<open>*max_nv\<close>); a size that does not fit is converted in a way the
  implementation defines, which the model does not follow.
\<close>

definition row_width :: "'a list list \<Rightarrow> error + nat" where
  "row_width rows =
     (case max_size rows of
        Inl e \<Rightarrow> Inl e
      | Inr max_n \<Rightarrow> if fits_int max_n then Inr max_n else Inl UndefinedBehaviour)"

text \<open>
  Then the allocation of \<open>sizeof(T) * nsites * max_n\<close> bytes, a product of sizes, and
  the loop.
\<close>

definition fill_matrix ::
  "(nat \<Rightarrow> bool) \<Rightarrow> nat \<Rightarrow> 'a \<Rightarrow> 'a \<Rightarrow> nat \<Rightarrow> nat \<Rightarrow> 'a list list \<Rightarrow> error + 'a list option" where
  "fill_matrix ok elem_size pad junk nsites max_n rows =
     pack_loop pad max_n rows nsites 0
       (malloc ok elem_size (size_mul (size_mul elem_size nsites) max_n) junk)"

text \<open>A row followed by the padding value up to the width of the matrix.\<close>

definition padded_row :: "'a \<Rightarrow> nat \<Rightarrow> 'a list \<Rightarrow> 'a list" where
  "padded_row pad width row = row @ replicate (width - length row) pad"

text \<open>Row \<open>i\<close> of a row-major matrix of the given width.\<close>

definition row_of :: "nat \<Rightarrow> 'a list \<Rightarrow> nat \<Rightarrow> 'a list" where
  "row_of width buf i = take width (drop (width * i) buf)"

text \<open>The sentinel of the neighbour matrix.\<close>

definition neighbour_pad :: int where
  "neighbour_pad = -10"

subsection \<open>The block grid (lines 177-191)\<close>

text \<open>
  Here the result of a computation in \<open>double\<close>s is cut to an \<open>int\<close>, so the rounding of
  each operation decides the result: the cube root of 27 in the C library is the
  \<open>double\<close> next above 3, and 3 divided by it is cut to 0. In this part a \<open>double\<close> is
  a finite value, an infinity or a NaN (zero has no sign here), and the subtraction, the
  multiplication, the division and the cube root of \<open>double\<close>s are parameters: the
  operations of the machine and of its C library, with their rounding, their overflow to
  an infinity and their division by zero.
\<close>

datatype double = Fin real | PInf | MInf | NaN

record double_ops =
  d_sub :: "double \<Rightarrow> double \<Rightarrow> double"
  d_mul :: "double \<Rightarrow> double \<Rightarrow> double"
  d_div :: "double \<Rightarrow> double \<Rightarrow> double"
  d_cbrt :: "double \<Rightarrow> double"



definition particle_block :: real where
  "particle_block = 5"

text \<open>
  \<open>(int)x\<close> for a \<open>double\<close>: the fraction is dropped; an infinity, a NaN or a value that
  does not fit an \<open>int\<close> of 32 bits is undefined.
\<close>

fun double_to_int :: "double \<Rightarrow> error + int" where
  "double_to_int (Fin x) =
     (let t = (if 0 \<le> x then \<lfloor>x\<rfloor> else \<lceil>x\<rceil>)
      in if - 2147483648 \<le> t \<and> t \<le> 2147483647 then Inr t else Inl UndefinedBehaviour)"
| "double_to_int PInf = Inl UndefinedBehaviour"
| "double_to_int MInf = Inl UndefinedBehaviour"
| "double_to_int NaN = Inl UndefinedBehaviour"

text \<open>The \<open>double\<close> that is converted for one axis: \<open>(hi - lo) / vol_edge * block_edge\<close>.\<close>

definition axis_value :: "double_ops \<Rightarrow> real \<Rightarrow> real \<Rightarrow> double \<Rightarrow> double \<Rightarrow> double" where
  "axis_value ops lo hi vol_edge block_edge =
     d_mul ops (d_div ops (d_sub ops (Fin hi) (Fin lo)) vol_edge) block_edge"

text \<open>
  \<open>(int)((hi - lo) / vol_edge * block_edge) + 1\<close>; the overflow of the addition is
  undefined.
\<close>

definition block_count :: "double_ops \<Rightarrow> real \<Rightarrow> real \<Rightarrow> double \<Rightarrow> double \<Rightarrow> error + int" where
  "block_count ops lo hi vol_edge block_edge =
     (case double_to_int (axis_value ops lo hi vol_edge block_edge) of
        Inl e \<Rightarrow> Inl e
      | Inr t \<Rightarrow> if t + 1 \<le> 2147483647 then Inr (t + 1) else Inl UndefinedBehaviour)"

text \<open>
  Lines 178, 181 and 184: the edge of a block (the conversion of \<open>nsites\<close> to a
  \<open>double\<close> is exact) and the edge of the domain.
\<close>

definition grid_block_edge :: "double_ops \<Rightarrow> int \<Rightarrow> double" where
  "grid_block_edge ops nsites =
     d_cbrt ops (d_div ops (Fin (real_of_int nsites)) (Fin particle_block))"

definition grid_vol_edge ::
  "double_ops \<Rightarrow> real \<Rightarrow> real \<Rightarrow> real \<Rightarrow> real \<Rightarrow> real \<Rightarrow> real \<Rightarrow> double" where
  "grid_vol_edge ops xmin xmax ymin ymax zmin zmax =
     d_cbrt ops (d_mul ops (d_mul ops (d_sub ops (Fin xmax) (Fin xmin))
                                      (d_sub ops (Fin ymax) (Fin ymin)))
                   (d_sub ops (Fin zmax) (Fin zmin)))"

definition block_grid ::
  "double_ops \<Rightarrow> real \<Rightarrow> real \<Rightarrow> real \<Rightarrow> real \<Rightarrow> real \<Rightarrow> real \<Rightarrow> int \<Rightarrow> error + (int \<times> int \<times> int)" where
  "block_grid ops xmin xmax ymin ymax zmin zmax nsites =
     (let block_edge = grid_block_edge ops nsites;
          vol_edge = grid_vol_edge ops xmin xmax ymin ymax zmin zmax
      in case block_count ops xmin xmax vol_edge block_edge of
           Inl e \<Rightarrow> Inl e
         | Inr nx \<Rightarrow>
             (case block_count ops ymin ymax vol_edge block_edge of
                Inl e \<Rightarrow> Inl e
              | Inr ny \<Rightarrow>
                  (case block_count ops zmin zmax vol_edge block_edge of
                     Inl e \<Rightarrow> Inl e
                   | Inr nz \<Rightarrow> Inr (nx, ny, nz))))"


text \<open>
  Operations without rounding, for the examples: on finite values the exact result, with
  the infinities and the NaN of the machine where there is none.
\<close>

definition infinity_of :: "real \<Rightarrow> double" where
  "infinity_of s = (if s = 0 then NaN else if 0 < s then PInf else MInf)"

fun sign_of :: "double \<Rightarrow> real" where
  "sign_of (Fin x) = sgn x"
| "sign_of PInf = 1"
| "sign_of MInf = - 1"
| "sign_of NaN = 0"

fun exact_sub :: "double \<Rightarrow> double \<Rightarrow> double" where
  "exact_sub (Fin x) (Fin y) = Fin (x - y)"
| "exact_sub (Fin x) PInf = MInf"
| "exact_sub (Fin x) MInf = PInf"
| "exact_sub PInf (Fin y) = PInf"
| "exact_sub PInf MInf = PInf"
| "exact_sub MInf (Fin y) = MInf"
| "exact_sub MInf PInf = MInf"
| "exact_sub PInf PInf = NaN"
| "exact_sub MInf MInf = NaN"
| "exact_sub NaN b = NaN"
| "exact_sub a NaN = NaN"

fun exact_mul :: "double \<Rightarrow> double \<Rightarrow> double" where
  "exact_mul (Fin x) (Fin y) = Fin (x * y)"
| "exact_mul a b = infinity_of (sign_of a * sign_of b)"

fun exact_div :: "double \<Rightarrow> double \<Rightarrow> double" where
  "exact_div (Fin x) (Fin y) = (if y = 0 then infinity_of (sgn x) else Fin (x / y))"
| "exact_div (Fin x) PInf = Fin 0"
| "exact_div (Fin x) MInf = Fin 0"
| "exact_div PInf (Fin y) = (if y < 0 then MInf else PInf)"
| "exact_div MInf (Fin y) = (if y < 0 then PInf else MInf)"
| "exact_div a b = NaN"

fun exact_cbrt :: "double \<Rightarrow> double" where
  "exact_cbrt (Fin x) = Fin (root 3 x)"
| "exact_cbrt a = a"

definition exact_ops :: double_ops where
  "exact_ops = \<lparr>d_sub = exact_sub, d_mul = exact_mul, d_div = exact_div, d_cbrt = exact_cbrt\<rparr>"


subsection \<open>Bounding box of a cell (lines 259-274)\<close>

text \<open>The body of the loop over \<open>i\<close>: the three coordinates of vertex \<open>i\<close>.\<close>

definition bbox_step :: "real list \<Rightarrow> nat \<Rightarrow> real list \<times> real list \<Rightarrow> real list \<times> real list" where
  "bbox_step verts i mm =
     fold (\<lambda>j (tmp_min, tmp_max).
             (if verts ! (i * 3 + j) < tmp_min ! j then tmp_min[j := verts ! (i * 3 + j)]
              else tmp_min,
              if verts ! (i * 3 + j) > tmp_max ! j then tmp_max[j := verts ! (i * 3 + j)]
              else tmp_max))
       [0, 1, 2] mm"

text \<open>
  \<open>std::copy(begin, begin + 3, tmp_min)\<close> reads three coordinates, which is undefined on
  a shorter vector.
\<close>

definition bounding_box :: "real list \<Rightarrow> error + (real list \<times> real list)" where
  "bounding_box verts =
     (if length verts < 3 then Inl UndefinedBehaviour
      else Inr (fold (bbox_step verts) [1..<length verts div 3] (take 3 verts, take 3 verts)))"

subsection \<open>Sampling a cell (lines 279-334)\<close>

text \<open>
  \<open>std::upper_bound\<close> on the cumulative volumes, which are sorted: the position of the
  first element greater than the value, \<open>None\<close> for the \<open>end\<close> iterator.
\<close>

fun upper_bound :: "real list \<Rightarrow> real \<Rightarrow> nat option" where
  "upper_bound [] v = None"
| "upper_bound (x # xs) v = (if v < x then Some 0 else map_option Suc (upper_bound xs v))"

text \<open>The four vertices of the tetrahedron at position \<open>t_idx\<close> of \<open>t_vert\<close>.\<close>

definition tetra_at ::
  "int list \<Rightarrow> real list \<Rightarrow> nat \<Rightarrow> error + (point \<times> point \<times> point \<times> point)" where
  "tetra_at t_vert verts t_idx =
     (if t_idx * 4 + 3 < length t_vert
      then four_vertices verts (t_vert ! (t_idx * 4)) (t_vert ! (t_idx * 4 + 1))
             (t_vert ! (t_idx * 4 + 2)) (t_vert ! (t_idx * 4 + 3))
      else Inl UndefinedBehaviour)"

text \<open>
  One turn of the loop of lines 320-334 after the draw \<open>r_vol\<close>: \<open>None\<close> when the search
  ends past the end (the turn is repeated), else the sample buffer with the new point at
  \<open>idx*n_samples*3 + i*3\<close>. The products \<open>t_idx*4\<close>, \<open>idx*n_samples*3\<close> and \<open>i*3\<close> are
  products of \<open>int\<close>s.
\<close>

definition sample_turn ::
  "real list \<Rightarrow> int list \<Rightarrow> real list \<Rightarrow> nat \<Rightarrow> int \<Rightarrow> nat \<Rightarrow> real \<Rightarrow>
     real list option \<times> rand_state \<Rightarrow> (error + real list option \<times> rand_state) option" where
  "sample_turn c_vol t_vert verts idx n_samples i r_vol sp_st =
     (case upper_bound c_vol r_vol of
        None \<Rightarrow> None
      | Some t_idx \<Rightarrow>
          Some (if \<not> fits_int (t_idx * 4) \<or> \<not> fits_int (idx * nat n_samples * 3) \<or>
                   \<not> fits_int (i * 3)
                then Inl UndefinedBehaviour
                else (case tetra_at t_vert verts t_idx of
                        Inl e \<Rightarrow> Inl e
                      | Inr (p0, p1, p2, p3) \<Rightarrow>
                          (case sample_point_in_tetra (snd sp_st) p0 p1 p2 p3 of
                             ((x, y, z), st') \<Rightarrow>
                               (case buf_copy [x, y, z] (idx * nat n_samples * 3 + i * 3)
                                       (fst sp_st) of
                                  Inl e \<Rightarrow> Inl e
                                | Inr sp' \<Rightarrow> Inr (sp', st'))))))"

text \<open>
  The loop of lines 320-334. It has no bound on the number of turns: a turn whose search
  ends past the end draws again without counting. A run that never ends is \<open>None\<close>.
\<close>

partial_function (option) sample_loop ::
  "real list \<Rightarrow> int list \<Rightarrow> real list \<Rightarrow> real \<Rightarrow> nat \<Rightarrow> int \<Rightarrow> nat \<Rightarrow>
     real list option \<times> rand_state \<Rightarrow> (error + real list option \<times> rand_state) option" where
  "sample_loop c_vol t_vert verts c_factor idx n_samples i sp_st =
     (if int i < n_samples then
        (case sample_turn c_vol t_vert verts idx n_samples i
                (real (fst (std_rand (snd sp_st))) * c_factor)
                (fst sp_st, snd (std_rand (snd sp_st))) of
           None \<Rightarrow>
             sample_loop c_vol t_vert verts c_factor idx n_samples i
               (fst sp_st, snd (std_rand (snd sp_st)))
         | Some (Inl e) \<Rightarrow> Some (Inl e)
         | Some (Inr sp_st') \<Rightarrow>
             sample_loop c_vol t_vert verts c_factor idx n_samples (i + 1) sp_st')
      else Some (Inr sp_st))"

declare sample_loop.simps [code]

text \<open>
  Lines 279-334 for one cell: the decomposition, then \<open>c_vol.back()\<close>, which is undefined
  on an empty vector, then the loop.
\<close>

definition sample_cell ::
  "int list \<Rightarrow> real list \<Rightarrow> nat \<Rightarrow> int \<Rightarrow> real list option \<times> rand_state \<Rightarrow>
     (error + real list option \<times> rand_state) option" where
  "sample_cell f_vert verts idx n_samples sp_st =
     (case decompose f_vert verts of
        Inl e \<Rightarrow> Some (Inl e)
      | Inr (t_vert, c_vol, vol) \<Rightarrow>
          if c_vol = [] then Some (Inl UndefinedBehaviour)
          else sample_loop c_vol t_vert verts
                 (last c_vol / (real (RAND_MAX (snd sp_st)) + 1)) idx n_samples 0 sp_st)"

text \<open>A sequence of draws that is always the same value.\<close>

definition constant_draws :: "nat \<Rightarrow> nat \<Rightarrow> nat" where
  "constant_draws r i = r"

subsection \<open>The loop over the cells (lines 246-336)\<close>

text \<open>
  What the cell engine (voro++) gives for one turn of the loop: the id of the site
  (\<open>vl.pos\<close>), its neighbours (\<open>c.neighbors\<close>), the volume of the cell, the coordinates
  of its vertices (\<open>c.vertices\<close>) and its faces (\<open>c.face_vertices\<close>). The engine is not
  part of this file: the cells it yields, in its order, are an input of the model.
\<close>

record cell =
  cell_idx :: int
  cell_neighbors :: "int list"
  cell_volume :: real
  cell_vertices :: "real list"
  cell_face_vertices :: "int list"

text \<open>
  The vectors and the buffers that the loop fills, and the random number generator. The
  growth of a \<open>std::vector\<close> is taken to succeed (a \<open>std::bad_alloc\<close> from it is not
  modelled; every vector operation of the code comes before line 351).
\<close>

record loop_state =
  ls_n_list :: "int list list"
  ls_vertices_list :: "real list list"
  ls_vols :: "real list option"
  ls_bb_m :: "real list option"
  ls_bb_M :: "real list option"
  ls_spoints :: "real list option"
  ls_rng :: rand_state

text \<open>
  Lines 249-274 for one cell. The vectors have one entry for each site, so an id outside
  \<open>[0, nsites)\<close> is an access outside them; the offset \<open>idx * 3\<close> into the buffers of
  the bounding boxes is a product of \<open>int\<close>s.
\<close>

definition store_cell :: "bool \<Rightarrow> nat \<Rightarrow> cell \<Rightarrow> loop_state \<Rightarrow> error + loop_state" where
  "store_cell with_vertices nsites c s =
     (if cell_idx c < 0 \<or> nsites \<le> nat (cell_idx c) \<or> \<not> fits_int (nat (cell_idx c) * 3)
      then Inl UndefinedBehaviour
      else (case buf_copy [cell_volume c] (nat (cell_idx c)) (ls_vols s) of
              Inl e \<Rightarrow> Inl e
            | Inr vols' \<Rightarrow>
        (case bounding_box (cell_vertices c) of
              Inl e \<Rightarrow> Inl e
            | Inr (tmp_min, tmp_max) \<Rightarrow>
                (case buf_copy tmp_min (nat (cell_idx c) * 3) (ls_bb_m s) of
                   Inl e \<Rightarrow> Inl e
                 | Inr bb_m' \<Rightarrow>
                     (case buf_copy tmp_max (nat (cell_idx c) * 3) (ls_bb_M s) of
                        Inl e \<Rightarrow> Inl e
                      | Inr bb_M' \<Rightarrow>
                          Inr (s\<lparr>ls_n_list := (ls_n_list s)[nat (cell_idx c) := cell_neighbors c],
                                 ls_vertices_list :=
                                   (if with_vertices
                                    then (ls_vertices_list s)[nat (cell_idx c) := cell_vertices c]
                                    else ls_vertices_list s),
                                 ls_vols := vols', ls_bb_m := bb_m', ls_bb_M := bb_M'\<rparr>))))))"

text \<open>The \<open>do ... while (vl.inc())\<close> loop; a cell whose sampling never ends stops it.\<close>

fun cell_loop ::
  "bool \<Rightarrow> bool \<Rightarrow> int \<Rightarrow> nat \<Rightarrow> cell list \<Rightarrow> loop_state \<Rightarrow> (error + loop_state) option" where
  "cell_loop with_vertices with_sampling n_samples nsites [] s = Some (Inr s)"
| "cell_loop with_vertices with_sampling n_samples nsites (c # cs) s =
     (case store_cell with_vertices nsites c s of
        Inl e \<Rightarrow> Some (Inl e)
      | Inr s1 \<Rightarrow>
          if \<not> with_sampling then cell_loop with_vertices with_sampling n_samples nsites cs s1
          else (case sample_cell (cell_face_vertices c) (cell_vertices c) (nat (cell_idx c))
                       n_samples (ls_spoints s1, ls_rng s1) of
                  None \<Rightarrow> None
                | Some (Inl e) \<Rightarrow> Some (Inl e)
                | Some (Inr (sp, st)) \<Rightarrow>
                    cell_loop with_vertices with_sampling n_samples nsites cs
                      (s1\<lparr>ls_spoints := sp, ls_rng := st\<rparr>)))"

subsection \<open>The wrapper (\<open>hyperion_voropp_wrap\<close>, lines 168-398)\<close>

text \<open>The arguments of the call that are values.\<close>

record wrap_args =
  arg_xmin :: real
  arg_xmax :: real
  arg_ymin :: real
  arg_ymax :: real
  arg_zmin :: real
  arg_zmax :: real
  arg_points :: "real list"
  arg_nsites :: int
  arg_with_vertices :: bool
  arg_wall_str :: string
  arg_wall_args_arr :: "real list"
  arg_n_wall_args :: int
  arg_with_sampling :: bool
  arg_n_samples :: int

text \<open>
  The arguments that are pointers to the caller's variables: a buffer pointer is \<open>None\<close>
  when null, the vertex matrix holds \<open>None\<close> for a quiet NaN.
\<close>

record wrap_outputs =
  out_neighbours :: "int list option"
  out_max_nn :: int
  out_volumes :: "real list option"
  out_bb_min :: "real list option"
  out_bb_max :: "real list option"
  out_vertices :: "real option list option"
  out_max_nv :: int
  out_sample_points :: "real list option"

text \<open>
  What the call finds around it: the cells of the engine, the state of \<open>std::rand\<close>, the
  static wall slot, the rounded operations on \<open>double\<close>s, which allocations succeed (by
  the place of the \<open>malloc\<close> in the source, 0 to 5, and the number of bytes), what is in
  freshly allocated memory, and the text of the exception that the C++ library throws
  for a vector of impossible size.
\<close>

record wrap_env =
  env_cells :: "cell list"
  env_rng :: rand_state
  env_wall_ptr :: "wall option"
  env_double_ops :: double_ops
  env_malloc_ok :: "nat \<Rightarrow> nat \<Rightarrow> bool"
  env_junk_int :: int
  env_junk_double :: real
  env_junk_vertex :: "real option"
  env_length_error_what :: string

text \<open>
  The number of bytes of the sample buffer, line 215:
  \<open>sizeof(double) * nsites * n_samples * 3\<close>, a product of sizes in which a negative
  \<open>n_samples\<close> is a huge size.
\<close>

definition spoints_bytes :: "nat \<Rightarrow> int \<Rightarrow> nat" where
  "spoints_bytes nsites n_samples =
     size_mul (size_mul (size_mul sizeof_double nsites) (size_t_of_int n_samples)) 3"

text \<open>Lines 203-215: the vectors and the four buffers, before the loop.\<close>

definition initial_state :: "wrap_args \<Rightarrow> wrap_env \<Rightarrow> loop_state" where
  "initial_state a env =
     \<lparr>ls_n_list = replicate (nat (arg_nsites a)) [],
      ls_vertices_list = (if arg_with_vertices a then replicate (nat (arg_nsites a)) [] else []),
      ls_vols = malloc (env_malloc_ok env 0) sizeof_double
                  (size_mul sizeof_double (nat (arg_nsites a))) (env_junk_double env),
      ls_bb_m = malloc (env_malloc_ok env 1) sizeof_double
                  (size_mul (size_mul sizeof_double (nat (arg_nsites a))) 3) (env_junk_double env),
      ls_bb_M = malloc (env_malloc_ok env 2) sizeof_double
                  (size_mul (size_mul sizeof_double (nat (arg_nsites a))) 3) (env_junk_double env),
      ls_spoints =
        (if arg_with_sampling a
         then malloc (env_malloc_ok env 3) sizeof_double
                (spoints_bytes (nat (arg_nsites a)) (arg_n_samples a)) (env_junk_double env)
         else None),
      ls_rng = env_rng env\<rparr>"

text \<open>
  Lines 177-336, before any of the caller's variables is written: the block grid, the
  vectors and buffers (a negative \<open>nsites\<close> makes the constructor of \<open>n_list\<close> throw), the
  sites put into the container (the coordinates \<open>points[i*3]\<close> to \<open>points[i*3 + 2]\<close> are
  read for each, the offsets being \<open>int\<close>s), the wall, the cells.
\<close>

definition compute_cells :: "wrap_args \<Rightarrow> wrap_env \<Rightarrow> (error + loop_state) option" where
  "compute_cells a env =
     (case block_grid (env_double_ops env) (arg_xmin a) (arg_xmax a) (arg_ymin a) (arg_ymax a)
             (arg_zmin a) (arg_zmax a) (arg_nsites a) of
        Inl e \<Rightarrow> Some (Inl e)
      | Inr blocks \<Rightarrow>
          if arg_nsites a < 0 then Some (Inl (LengthError (env_length_error_what env)))
          else if 1 \<le> arg_nsites a \<and> \<not> fits_int ((nat (arg_nsites a) - 1) * 3 + 2)
          then Some (Inl UndefinedBehaviour)
          else if length (arg_points a) < nat (arg_nsites a) * 3 then Some (Inl UndefinedBehaviour)
          else (case add_walls \<lparr>wall_ptr = env_wall_ptr env, con_walls = []\<rparr> (arg_wall_str a)
                       (arg_wall_args_arr a) (arg_n_wall_args a) of
                  Inl e \<Rightarrow> Some (Inl e)
                | Inr ws \<Rightarrow>
                    cell_loop (arg_with_vertices a) (arg_with_sampling a) (arg_n_samples a)
                      (nat (arg_nsites a)) (env_cells env) (initial_state a env)))"

text \<open>
  Lines 364-383: with vertices asked for, \<open>*max_nv\<close> is written, then the vertex matrix
  is filled, then \<open>*vertices\<close> is written; else \<open>*max_nv = 0\<close>. The result is how this
  part ended and the caller's variables at that moment.
\<close>

definition pack_vertices ::
  "wrap_args \<Rightarrow> wrap_env \<Rightarrow> loop_state \<Rightarrow> wrap_outputs \<Rightarrow> (error + unit) \<times> wrap_outputs" where
  "pack_vertices a env s out =
     (if arg_with_vertices a then
        (case row_width (map (map Some) (ls_vertices_list s)) of
           Inl e \<Rightarrow> (Inl e, out)
         | Inr max_nv \<Rightarrow>
             (case fill_matrix (env_malloc_ok env 5) sizeof_double None (env_junk_vertex env)
                     (nat (arg_nsites a)) max_nv (map (map Some) (ls_vertices_list s)) of
                Inl e \<Rightarrow> (Inl e, out\<lparr>out_max_nv := int max_nv\<rparr>)
              | Inr verts \<Rightarrow>
                  (Inr (), out\<lparr>out_max_nv := int max_nv, out_vertices := verts\<rparr>)))
      else (Inr (), out\<lparr>out_max_nv := 0\<rparr>))"

text \<open>
  Lines 338-392, after the cells: the symmetry pass, \<open>*max_nn\<close>, the neighbour matrix,
  the vertex matrix, and the five buffer pointers handed to the caller (\<open>spoints\<close> is
  null when no sampling was asked for). Again the result is how this part ended and the
  caller's variables at that moment.
\<close>

definition hand_over ::
  "wrap_args \<Rightarrow> wrap_env \<Rightarrow> loop_state \<Rightarrow> wrap_outputs \<Rightarrow> (error + unit) \<times> wrap_outputs" where
  "hand_over a env s out =
     (case symmetrize (ls_n_list s) of
        Inl e \<Rightarrow> (Inl e, out)
      | Inr n_list' \<Rightarrow>
          (case row_width n_list' of
             Inl e \<Rightarrow> (Inl e, out)
           | Inr max_nn \<Rightarrow>
               (case fill_matrix (env_malloc_ok env 4) sizeof_int neighbour_pad (env_junk_int env)
                       (nat (arg_nsites a)) max_nn n_list' of
                  Inl e \<Rightarrow> (Inl e, out\<lparr>out_max_nn := int max_nn\<rparr>)
                | Inr neighs \<Rightarrow>
                    (case pack_vertices a env s (out\<lparr>out_max_nn := int max_nn\<rparr>) of
                       (Inl e, out') \<Rightarrow> (Inl e, out')
                     | (Inr u, out') \<Rightarrow>
                         (Inr (),
                          out'\<lparr>out_volumes := ls_vols s,
                                out_bb_min := ls_bb_m s,
                                out_bb_max := ls_bb_M s,
                                out_neighbours := neighs,
                                out_sample_points := ls_spoints s\<rparr>)))))"

text \<open>
  The body of the \<open>try\<close> block: \<open>None\<close> when it never ends, else how it ended and the
  caller's variables at that moment.
\<close>

definition try_block ::
  "wrap_args \<Rightarrow> wrap_env \<Rightarrow> wrap_outputs \<Rightarrow> ((error + unit) \<times> wrap_outputs) option" where
  "try_block a env out =
     (case compute_cells a env of
        None \<Rightarrow> None
      | Some (Inl e) \<Rightarrow> Some (Inl e, out)
      | Some (Inr s) \<Rightarrow> Some (hand_over a env s out))"

text \<open>The text of the message built in the \<open>catch\<close> block from \<open>e.what()\<close>.\<close>

definition error_message :: "string \<Rightarrow> string" where
  "error_message what =
     ''A C++ exception was raised while calling the voro++ wrapper. The full error message is: ''
       @ [CHR 0x22] @ what @ [CHR 0x22] @ ''.''"

text \<open>
  The call: \<open>None\<close> when it never returns, \<open>Inl UndefinedBehaviour\<close> when its behaviour is
  undefined, else the returned string (\<open>None\<close> for the null pointer) and the caller's
  variables.
\<close>

definition hyperion_voropp_wrap ::
  "wrap_args \<Rightarrow> wrap_env \<Rightarrow> wrap_outputs \<Rightarrow> (error + (string option \<times> wrap_outputs)) option" where
  "hyperion_voropp_wrap a env out =
     (case try_block a env out of
        None \<Rightarrow> None
      | Some (Inr u, out') \<Rightarrow> Some (Inr (None, out'))
      | Some (Inl (InvalidArgument what), out') \<Rightarrow> Some (Inr (Some (error_message what), out'))
      | Some (Inl (LengthError what), out') \<Rightarrow> Some (Inr (Some (error_message what), out'))
      | Some (Inl UndefinedBehaviour, out') \<Rightarrow> Some (Inl UndefinedBehaviour))"

subsection \<open>Calls used as examples\<close>

text \<open>Memory for every allocation, and memory for allocations below 4 GiB only.\<close>

definition enough_memory :: "nat \<Rightarrow> nat \<Rightarrow> bool" where
  "enough_memory site bytes = True"


definition null_outputs :: wrap_outputs where
  "null_outputs =
     \<lparr>out_neighbours = None, out_max_nn = 0, out_volumes = None, out_bb_min = None,
      out_bb_max = None, out_vertices = None, out_max_nv = 0, out_sample_points = None\<rparr>"

text \<open>
  A call with a flat cell: one site in the unit cube, no wall, one sample asked for; the
  engine yields a cell whose four vertices lie in the plane \<open>z = 0\<close>, with one face
  \<open>(1, 2, 3)\<close>.
\<close>

definition flat_cell :: cell where
  "flat_cell =
     \<lparr>cell_idx = 0, cell_neighbors = [], cell_volume = 0,
      cell_vertices = [0,0,0, 1,0,0, 0,1,0, 1,1,0], cell_face_vertices = [3, 1, 2, 3]\<rparr>"

definition flat_args :: wrap_args where
  "flat_args =
     \<lparr>arg_xmin = 0, arg_xmax = 1, arg_ymin = 0, arg_ymax = 1, arg_zmin = 0, arg_zmax = 1,
      arg_points = [1/2, 1/2, 1/2], arg_nsites = 1, arg_with_vertices = False,
      arg_wall_str = [], arg_wall_args_arr = [], arg_n_wall_args = 0,
      arg_with_sampling = True, arg_n_samples = 1\<rparr>"

definition flat_env :: wrap_env where
  "flat_env =
     \<lparr>env_cells = [flat_cell],
      env_rng = \<lparr>RAND_MAX = 32767, draws = constant_draws 12345, calls = 0\<rparr>,
      env_wall_ptr = None, env_double_ops = exact_ops, env_malloc_ok = enough_memory,
      env_junk_int = 0, env_junk_double = 0, env_junk_vertex = None,
      env_length_error_what = []\<rparr>"

definition flat_state :: loop_state where
  "flat_state =
     \<lparr>ls_n_list = [[]], ls_vertices_list = [], ls_vols = Some [0], ls_bb_m = Some [0, 0, 0],
      ls_bb_M = Some [0, 0, 0], ls_spoints = Some [0, 0, 0],
      ls_rng = \<lparr>RAND_MAX = 32767, draws = constant_draws 12345, calls = 0\<rparr>\<rparr>"

text \<open>
  A call with three sites in the unit cube, vertices asked for, no wall, no sampling; the
  engine yields three cells whose neighbour lists have the lengths 2, 5 and 3.
\<close>

definition three_cells :: "cell list" where
  "three_cells =
     [\<lparr>cell_idx = 0, cell_neighbors = [1, 2], cell_volume = 1/4,
       cell_vertices = [0,0,0, 1,0,0, 0,1,0], cell_face_vertices = []\<rparr>,
      \<lparr>cell_idx = 1, cell_neighbors = [0, 2, -1, -2, -3], cell_volume = 1/2,
       cell_vertices = [0,0,0, 1,0,0, 0,1,0, 0,0,1], cell_face_vertices = []\<rparr>,
      \<lparr>cell_idx = 2, cell_neighbors = [0, 1, -1], cell_volume = 1/4,
       cell_vertices = [1,1,1], cell_face_vertices = []\<rparr>]"

definition three_args :: wrap_args where
  "three_args =
     \<lparr>arg_xmin = 0, arg_xmax = 1, arg_ymin = 0, arg_ymax = 1, arg_zmin = 0, arg_zmax = 1,
      arg_points = [1/4,1/4,1/4, 1/2,1/2,1/2, 3/4,3/4,3/4], arg_nsites = 3,
      arg_with_vertices = True, arg_wall_str = [], arg_wall_args_arr = [],
      arg_n_wall_args = 0, arg_with_sampling = False, arg_n_samples = 0\<rparr>"

definition three_env :: wrap_env where
  "three_env =
     \<lparr>env_cells = three_cells,
      env_rng = \<lparr>RAND_MAX = 32767, draws = constant_draws 0, calls = 0\<rparr>,
      env_wall_ptr = None, env_double_ops = exact_ops, env_malloc_ok = enough_memory,
      env_junk_int = 77, env_junk_double = 0, env_junk_vertex = Some 0,
      env_length_error_what = ''cannot create std::vector larger than max_size()''\<rparr>"

text \<open>What the loop over the cells leaves for this call, and what the caller holds after it.\<close>

definition three_state :: loop_state where
  "three_state =
     \<lparr>ls_n_list = [[1, 2], [0, 2, -1, -2, -3], [0, 1, -1]],
      ls_vertices_list = [[0,0,0, 1,0,0, 0,1,0], [0,0,0, 1,0,0, 0,1,0, 0,0,1], [1,1,1]],
      ls_vols = Some [1/4, 1/2, 1/4],
      ls_bb_m = Some [0,0,0, 0,0,0, 1,1,1],
      ls_bb_M = Some [1,1,0, 1,1,1, 1,1,1],
      ls_spoints = None,
      ls_rng = \<lparr>RAND_MAX = 32767, draws = constant_draws 0, calls = 0\<rparr>\<rparr>"

definition three_outputs :: wrap_outputs where
  "three_outputs =
     \<lparr>out_neighbours = Some [1, 2, -10, -10, -10,  0, 2, -1, -2, -3,  0, 1, -1, -10, -10],
      out_max_nn = 5,
      out_volumes = Some [1/4, 1/2, 1/4],
      out_bb_min = Some [0,0,0, 0,0,0, 1,1,1],
      out_bb_max = Some [1,1,0, 1,1,1, 1,1,1],
      out_vertices =
        Some [Some 0, Some 0, Some 0, Some 1, Some 0, Some 0, Some 0, Some 1, Some 0,
                None, None, None,
              Some 0, Some 0, Some 0, Some 1, Some 0, Some 0, Some 0, Some 1, Some 0,
                Some 0, Some 0, Some 1,
              Some 1, Some 1, Some 1, None, None, None, None, None, None, None, None, None],
      out_max_nv = 12,
      out_sample_points = None\<rparr>"



definition no_site_args :: wrap_args where
  "no_site_args = three_args\<lparr>arg_points := [], arg_nsites := 0\<rparr>"

definition no_site_env :: wrap_env where
  "no_site_env = three_env\<lparr>env_cells := []\<rparr>"

definition no_site_state :: loop_state where
  "no_site_state =
     \<lparr>ls_n_list = [], ls_vertices_list = [], ls_vols = Some [], ls_bb_m = Some [],
      ls_bb_M = Some [], ls_spoints = None,
      ls_rng = \<lparr>RAND_MAX = 32767, draws = constant_draws 0, calls = 0\<rparr>\<rparr>"







section \<open>Properties\<close>

subsection \<open>Walls\<close>

lemma add_sphere_invalid:
  "n = int (length arr) \<Longrightarrow>
   is_invalid_argument (add_sphere ws arr n) \<longleftrightarrow> (n \<noteq> 4 \<or> arr ! 3 \<le> 0)"
  by (auto simp: add_sphere_def is_invalid_argument_def)

lemma add_cylinder_invalid:
  "n = int (length arr) \<Longrightarrow>
   is_invalid_argument (add_cylinder ws arr n) \<longleftrightarrow> (n \<noteq> 7 \<or> arr ! 6 \<le> 0)"
  by (auto simp: add_cylinder_def is_invalid_argument_def)

text \<open>
  C6. With the parameter count the length of the parameter array, \<open>add_walls\<close> throws
  \<open>std::invalid_argument\<close> exactly when the tag is \<open>sphere\<close> and the count is not 4 or
  the fourth parameter is not positive, or the tag is \<open>cylinder\<close> and the count is not 7
  or the seventh parameter is not positive. With any other tag it returns with the wall
  slot and the walls of the container as they were.
\<close>

theorem add_walls_invalid_iff:
  assumes "n_wall_args = int (length wall_args_arr)"
  shows "(is_invalid_argument (add_walls ws wall_str wall_args_arr n_wall_args) \<longleftrightarrow>
            (wall_str = ''sphere'' \<and> (n_wall_args \<noteq> 4 \<or> wall_args_arr ! 3 \<le> 0)) \<or>
            (wall_str = ''cylinder'' \<and> (n_wall_args \<noteq> 7 \<or> wall_args_arr ! 6 \<le> 0)))
       \<and> (wall_str \<noteq> ''sphere'' \<and> wall_str \<noteq> ''cylinder'' \<longrightarrow>
            add_walls ws wall_str wall_args_arr n_wall_args = Inr ws)"
proof -
  have s: "wall_str = ''sphere'' \<Longrightarrow>
      add_walls ws wall_str wall_args_arr n_wall_args = add_sphere ws wall_args_arr n_wall_args"
    by (simp add: add_walls_def split: sum.splits)
  have c: "wall_str = ''cylinder'' \<Longrightarrow>
      add_walls ws wall_str wall_args_arr n_wall_args = add_cylinder ws wall_args_arr n_wall_args"
    by (simp add: add_walls_def)
  have o: "wall_str \<noteq> ''sphere'' \<Longrightarrow> wall_str \<noteq> ''cylinder'' \<Longrightarrow>
      add_walls ws wall_str wall_args_arr n_wall_args = Inr ws"
    by (simp add: add_walls_def)
  have no: "\<not> is_invalid_argument (Inr ws :: error + wall_state)"
    by (simp add: is_invalid_argument_def)
  show ?thesis
  proof (cases "wall_str = ''sphere''")
    case True
    then show ?thesis using s add_sphere_invalid[OF assms, of ws] by simp
  next
    case False
    note ns = this
    show ?thesis
    proof (cases "wall_str = ''cylinder''")
      case True
      then show ?thesis using c add_cylinder_invalid[OF assms, of ws] by simp
    next
      case False
      then show ?thesis using ns o no by simp
    qed
  qed
qed

theorem add_walls_invalid_iff_witness:
  "(4 = int (length [0, 0, 0, 0 :: real])) \<and>
   is_invalid_argument (add_walls \<lparr>wall_ptr = None, con_walls = []\<rparr> ''sphere'' [0, 0, 0, 0] 4) \<and>
   (7 = int (length [0, 0, 0, 0, 0, 1, 2 :: real])) \<and>
   \<not> is_invalid_argument
       (add_walls \<lparr>wall_ptr = None, con_walls = []\<rparr> ''cylinder'' [0, 0, 0, 0, 0, 1, 2] 7) \<and>
   (2 = int (length [1, 2 :: real])) \<and>
   add_walls \<lparr>wall_ptr = None, con_walls = []\<rparr> ''plane'' [1, 2] 2
     = Inr \<lparr>wall_ptr = None, con_walls = []\<rparr>"
  using add_walls_invalid_iff[of 4 "[0, 0, 0, 0]" "\<lparr>wall_ptr = None, con_walls = []\<rparr>" "''sphere''"]
        add_walls_invalid_iff[of 7 "[0, 0, 0, 0, 0, 1, 2]" "\<lparr>wall_ptr = None, con_walls = []\<rparr>"
          "''cylinder''"]
        add_walls_invalid_iff[of 2 "[1, 2]" "\<lparr>wall_ptr = None, con_walls = []\<rparr>" "''plane''"]
  by simp

subsection \<open>Sampling inside a tetrahedron\<close>






subsection \<open>Decomposition into tetrahedra\<close>

lemma tetra_vol_of_four:
  "four_vertices verts a b c d = Inr (v0, v1, v2, v3) \<Longrightarrow>
   tetra_vol_of verts (a, b, c, d) = tetra_volume v0 v1 v2 v3"
  by (simp add: tetra_vol_of_def)

lemma fan_of_step: "k < hi \<Longrightarrow>
  fan_of f_vert j k hi = (0, f_vert ! (j + 1), f_vert ! k, f_vert ! (k + 1)) # fan_of f_vert j (Suc k) hi"
  by (simp add: fan_of_def upt_conv_Cons)

lemma fan_of_empty: "\<not> k < hi \<Longrightarrow> fan_of f_vert j k hi = []"
  by (simp add: fan_of_def)

lemma flatten4_Nil: "flatten4 [] = []" by (simp add: flatten4_def)
lemma flatten4_Cons: "flatten4 ((a, b, c, d) # ts) = [a, b, c, d] @ flatten4 ts"
  by (simp add: flatten4_def)
lemma flatten4_append: "flatten4 (xs @ ys) = flatten4 xs @ flatten4 ys"
  by (simp add: flatten4_def)

lemma fan_loop_result:
  "fan_loop f_vert verts j hi k acc = Inr acc' \<Longrightarrow>
   fst acc' = fst acc @ flatten4 (fan_of f_vert j k hi) \<and>
   fst (snd acc') = fst (snd acc) @ cumsum (snd (snd acc)) (map (tetra_vol_of verts) (fan_of f_vert j k hi)) \<and>
   snd (snd acc') = snd (snd acc) + sum_list (map (tetra_vol_of verts) (fan_of f_vert j k hi))"
proof (induction f_vert verts j hi k acc rule: fan_loop.induct)
  case (1 f_vert verts j hi k t_vert c_vol vol)
  show ?case
  proof (cases "k < hi")
    case False
    with "1.prems" show ?thesis by (auto simp: fan_loop.simps fan_of_empty flatten4_Nil)
  next
    case True
    from True "1.prems" obtain v0 v1 v2 v3 where
      fv: "four_vertices verts 0 (f_vert ! (j + 1)) (f_vert ! k) (f_vert ! (k + 1)) = Inr (v0, v1, v2, v3)"
      by (subst (asm) fan_loop.simps) (auto split: sum.splits)
    define tv where "tv = tetra_volume v0 v1 v2 v3"
    from True "1.prems" fv have rec: "fan_loop f_vert verts j hi (k + 1)
        (t_vert @ [0, f_vert ! (j + 1), f_vert ! k, f_vert ! (k + 1)], c_vol @ [vol + tv], vol + tv) = Inr acc'"
      by (subst (asm) fan_loop.simps) (simp add: tv_def Let_def)
    have tvo: "tetra_vol_of verts (0, f_vert ! (j + 1), f_vert ! k, f_vert ! (k + 1)) = tv"
      using tetra_vol_of_four[OF fv] by (simp add: tv_def)
    from "1.IH"[OF True fv refl refl refl refl rec[unfolded tv_def]]
    have ih: "fst acc' = (t_vert @ [0, f_vert ! (j + 1), f_vert ! k, f_vert ! (k + 1)]) @ flatten4 (fan_of f_vert j (k + 1) hi) \<and>
      fst (snd acc') = (c_vol @ [vol + tv]) @ cumsum (vol + tv) (map (tetra_vol_of verts) (fan_of f_vert j (k + 1) hi)) \<and>
      snd (snd acc') = (vol + tv) + sum_list (map (tetra_vol_of verts) (fan_of f_vert j (k + 1) hi))"
      by (simp add: tv_def)
    show ?thesis
      using ih tvo by (simp add: fan_of_step[OF True] flatten4_Cons)
  qed
qed


lemma upt_shift: "map (\<lambda>i. i + c) [a..<b] = [a + c..<b + c]"
  by (induction b) (auto simp: less_Suc_eq)

lemma fan_of_spec:
  assumes "j + 1 + n \<le> length f_vert"
  shows "fan_of f_vert j (j + 2) (j + n) = spec_fan (take n (drop (j + 1) f_vert))"
proof -
  have len: "length (take n (drop (j + 1) f_vert)) = n" using assms by simp
  have "[j + 2..<j + n] = map (\<lambda>i. i + (j + 1)) [1..<n - 1]"
  proof (cases "n \<le> 1")
    case True then show ?thesis by simp
  next
    case False
    then have "[1 + (j + 1)..<(n - 1) + (j + 1)] = [j + 2..<j + n]" by (simp add: add.commute)
    then show ?thesis using upt_shift[of "j + 1" 1 "n - 1"] by simp
  qed
  then have "fan_of f_vert j (j + 2) (j + n) =
      map (\<lambda>i. (0, f_vert ! (j + 1), f_vert ! (i + (j + 1)), f_vert ! (i + (j + 1) + 1))) [1..<n - 1]"
    by (simp add: fan_of_def comp_def)
  also have "\<dots> = spec_fan (take n (drop (j + 1) f_vert))"
    unfolding spec_fan_def len using assms
    by (auto simp: add.commute add.left_commute)
  finally show ?thesis .
qed


lemma cumsum_append: "cumsum a (xs @ ys) = cumsum a xs @ cumsum (a + sum_list xs) ys"
  by (induction xs arbitrary: a) (auto simp: add.assoc)

lemma spec_faces_drop:
  assumes "j < length f_vert"
  shows "spec_faces (drop j f_vert) =
         take (nat (f_vert ! j)) (drop (j + 1) f_vert) #
         spec_faces (drop (j + nat (f_vert ! j) + 1) f_vert)"
proof -
  have "drop j f_vert = f_vert ! j # drop (j + 1) f_vert"
    using assms by (simp add: Cons_nth_drop_Suc)
  then show ?thesis by (simp add: add.commute add.left_commute)
qed

lemma spec_tetras_drop:
  assumes "j < length f_vert"
  shows "spec_tetras (drop j f_vert) =
         (if 0 \<in> set (take (nat (f_vert ! j)) (drop (j + 1) f_vert)) then []
          else spec_fan (take (nat (f_vert ! j)) (drop (j + 1) f_vert))) @
         spec_tetras (drop (j + nat (f_vert ! j) + 1) f_vert)"
  unfolding spec_tetras_def spec_faces_drop[OF assms] by simp

lemma spec_tetras_end: "length f_vert \<le> j \<Longrightarrow> spec_tetras (drop j f_vert) = []"
  by (simp add: spec_tetras_def)

lemma acc_extends_Nil: "acc_extends verts acc acc []"
  by (simp add: acc_extends_def flatten4_Nil)

lemma acc_extends_trans:
  "acc_extends verts acc acc1 ts \<Longrightarrow> acc_extends verts acc1 acc2 ts' \<Longrightarrow>
   acc_extends verts acc acc2 (ts @ ts')"
  by (simp add: acc_extends_def flatten4_append cumsum_append add.assoc)

lemma fan_loop_extends:
  "fan_loop f_vert verts j hi k acc = Inr acc' \<Longrightarrow>
   acc_extends verts acc acc' (fan_of f_vert j k hi)"
  using fan_loop_result[of f_vert verts j hi k acc acc'] by (simp add: acc_extends_def)

lemma face_loop_extends:
  "face_loop f_vert verts j acc = Inr acc' \<Longrightarrow>
   acc_extends verts acc acc' (spec_tetras (drop j f_vert))"
proof (induction f_vert verts j acc rule: face_loop.induct)
  case (1 f_vert verts j acc)
  show ?case
  proof (cases "j < length f_vert")
    case False
    then have "spec_tetras (drop j f_vert) = []" by (simp add: spec_tetras_def)
    with False "1.prems" show ?thesis by (subst (asm) face_loop.simps) (simp add: acc_extends_Nil)
  next
    case True
    define n where "n = nat (f_vert ! j)"
    from True "1.prems" have ok: "\<not> (f_vert ! j < 0 \<or> length f_vert < j + 1 + nat (f_vert ! j))"
      by (subst (asm) face_loop.simps) (auto simp: Let_def split: if_splits)
    then have inr: "j + 1 + n \<le> length f_vert" by (simp add: n_def)
    show ?thesis
    proof (cases "0 \<in> set (take (nat (f_vert ! j)) (drop (j + 1) f_vert))")
      case z: True
      from True ok z "1.prems" have "face_loop f_vert verts (j + nat (f_vert ! j) + 1) acc = Inr acc'"
        by (subst (asm) face_loop.simps) (simp add: Let_def)
      from "1.IH"(1)[OF True refl ok z this] show ?thesis
        using z by (simp add: spec_tetras_drop[OF True])
    next
      case z: False
      from True ok z "1.prems" obtain acc1 where
        f: "fan_loop f_vert verts j (j + nat (f_vert ! j)) (j + 2) acc = Inr acc1" and
        r: "face_loop f_vert verts (j + nat (f_vert ! j) + 1) acc1 = Inr acc'"
        by (subst (asm) face_loop.simps) (auto simp: Let_def split: sum.splits)
      have e1: "acc_extends verts acc acc1 (spec_fan (take (nat (f_vert ! j)) (drop (j + 1) f_vert)))"
        using fan_loop_extends[OF f] fan_of_spec[OF inr] by (simp add: n_def)
      have e2: "acc_extends verts acc1 acc' (spec_tetras (drop (j + nat (f_vert ! j) + 1) f_vert))"
        using "1.IH"(2)[OF True refl ok z f r] .
      show ?thesis
        using acc_extends_trans[OF e1 e2] z by (simp add: spec_tetras_drop[OF True])
    qed
  qed
qed

lemma decompose_result:
  assumes "decompose f_vert verts = Inr (t_vert, c_vol, vol)"
  shows "t_vert = flatten4 (spec_tetras f_vert)"
    and "c_vol = cumsum 0 (map (tetra_vol_of verts) (spec_tetras f_vert))"
    and "vol = sum_list (map (tetra_vol_of verts) (spec_tetras f_vert))"
  using face_loop_extends[OF assms[unfolded decompose_def]]
  by (simp_all add: acc_extends_def)


lemma four_vertices_valid:
  "valid_index verts a \<Longrightarrow> valid_index verts b \<Longrightarrow> valid_index verts c \<Longrightarrow>
   valid_index verts d \<Longrightarrow> \<exists>r. four_vertices verts a b c d = Inr r"
  by (simp add: four_vertices_def vertex_at_def valid_index_def)

lemma fan_loop_total:
  "valid_index verts 0 \<Longrightarrow> valid_index verts (f_vert ! (j + 1)) \<Longrightarrow>
   (\<forall>m. k \<le> m \<and> m \<le> hi \<longrightarrow> valid_index verts (f_vert ! m)) \<Longrightarrow>
   \<exists>acc'. fan_loop f_vert verts j hi k acc = Inr acc'"
proof (induction f_vert verts j hi k acc rule: fan_loop.induct)
  case (1 f_vert verts j hi k t_vert c_vol vol)
  show ?case
  proof (cases "k < hi")
    case False
    then show ?thesis by (subst fan_loop.simps) simp
  next
    case True
    with "1.prems" have "valid_index verts (f_vert ! k)" "valid_index verts (f_vert ! (k + 1))"
      by auto
    with "1.prems" obtain v0 v1 v2 v3 where
      fv: "four_vertices verts 0 (f_vert ! (j + 1)) (f_vert ! k) (f_vert ! (k + 1)) = Inr (v0, v1, v2, v3)"
      using four_vertices_valid[of verts 0 "f_vert ! (j + 1)" "f_vert ! k" "f_vert ! (k + 1)"]
      by (metis prod_cases4)
    have "\<forall>m. k + 1 \<le> m \<and> m \<le> hi \<longrightarrow> valid_index verts (f_vert ! m)"
      using "1.prems"(3) by auto
    from "1.IH"[OF True fv refl refl refl refl "1.prems"(1) "1.prems"(2) this]
    show ?thesis
      using True fv by (subst fan_loop.simps) (simp add: Let_def)
  qed
qed

lemma wf_faces_drop:
  assumes "j < length f_vert" "wf_faces (drop j f_vert)"
  shows "0 \<le> f_vert ! j" "j + 1 + nat (f_vert ! j) \<le> length f_vert"
        "wf_faces (drop (j + nat (f_vert ! j) + 1) f_vert)"
proof -
  have d: "drop j f_vert = f_vert ! j # drop (j + 1) f_vert"
    using assms(1) by (simp add: Cons_nth_drop_Suc)
  from assms(2) show "0 \<le> f_vert ! j" unfolding d by simp
  from assms(2) have "nat (f_vert ! j) \<le> length (drop (j + 1) f_vert)" unfolding d by simp
  then show "j + 1 + nat (f_vert ! j) \<le> length f_vert" using assms(1) by simp
  from assms(2) show "wf_faces (drop (j + nat (f_vert ! j) + 1) f_vert)"
    unfolding d by (simp add: add.commute add.left_commute)
qed

lemma face_loop_total:
  "wf_faces (drop j f_vert) \<Longrightarrow> valid_index verts 0 \<Longrightarrow>
   (\<forall>face \<in> set (spec_faces (drop j f_vert)). \<forall>v \<in> set face. valid_index verts v) \<Longrightarrow>
   \<exists>acc'. face_loop f_vert verts j acc = Inr acc'"
proof (induction f_vert verts j acc rule: face_loop.induct)
  case (1 f_vert verts j acc)
  show ?case
  proof (cases "j < length f_vert")
    case False
    then have "face_loop f_vert verts j acc = Inr acc" by (subst face_loop.simps) simp
    then show ?thesis by blast
  next
    case True
    define n where "n = nat (f_vert ! j)"
    note w = wf_faces_drop[OF True "1.prems"(1)]
    have ok: "\<not> (f_vert ! j < 0 \<or> length f_vert < j + 1 + nat (f_vert ! j))"
      using w by simp
    have valid_face: "\<forall>v \<in> set (take n (drop (j + 1) f_vert)). valid_index verts v"
      and valid_rest: "\<forall>face \<in> set (spec_faces (drop (j + n + 1) f_vert)). \<forall>v \<in> set face. valid_index verts v"
      using "1.prems"(3) unfolding spec_faces_drop[OF True] n_def by simp_all
    show ?thesis
    proof (cases "0 \<in> set (take (nat (f_vert ! j)) (drop (j + 1) f_vert))")
      case z: True
      from "1.IH"(1)[OF True refl ok z w(3) "1.prems"(2) valid_rest[unfolded n_def]]
      show ?thesis using True ok z by (subst face_loop.simps) (simp add: Let_def)
    next
      case z: False
      have nth_valid: "valid_index verts (f_vert ! m)" if "j + 1 \<le> m" "m \<le> j + n" for m
      proof -
        have "m - (j + 1) < n" using that by simp
        moreover have "n \<le> length (drop (j + 1) f_vert)" using w(2) by (simp add: n_def)
        ultimately have "m - (j + 1) < length (take n (drop (j + 1) f_vert))"
          by simp
        then have "take n (drop (j + 1) f_vert) ! (m - (j + 1)) \<in> set (take n (drop (j + 1) f_vert))"
          by (rule nth_mem)
        moreover have "take n (drop (j + 1) f_vert) ! (m - (j + 1)) = f_vert ! m"
          using that w(2) \<open>m - (j + 1) < n\<close> by (simp add: n_def)
        ultimately show ?thesis using valid_face by auto
      qed
      have fl: "\<exists>acc1. fan_loop f_vert verts j (j + n) (j + 2) acc = Inr acc1"
      proof (cases "j + 2 < j + n")
        case False
        show ?thesis using False by (cases acc) (simp add: fan_loop.simps)
      next
        case True
        then have "valid_index verts (f_vert ! (j + 1))" using nth_valid[of "j + 1"] by simp
        moreover have "\<forall>m. j + 2 \<le> m \<and> m \<le> j + n \<longrightarrow> valid_index verts (f_vert ! m)"
          using nth_valid by simp
        ultimately show ?thesis using fan_loop_total[OF "1.prems"(2)] by blast
      qed
      then obtain acc1 where f: "fan_loop f_vert verts j (j + nat (f_vert ! j)) (j + 2) acc = Inr acc1"
        by (auto simp: n_def)
      from "1.IH"(2)[OF True refl ok z f w(3) "1.prems"(2) valid_rest[unfolded n_def]]
      show ?thesis using True ok z f by (subst face_loop.simps) (simp add: Let_def)
    qed
  qed
qed

lemma decompose_total:
  "valid_cell f_vert verts \<Longrightarrow> \<exists>acc. decompose f_vert verts = Inr acc"
  using face_loop_total[of 0 f_vert verts "([], [], 0)"]
  by (simp add: valid_cell_def decompose_def)

lemma cumsum_sorted: "\<forall>x \<in> set xs. 0 \<le> x \<Longrightarrow> sorted (cumsum a xs) \<and> (\<forall>y \<in> set (cumsum a xs). a \<le> y)"
proof (induction xs arbitrary: a)
  case Nil
  then show ?case by simp
next
  case (Cons x xs)
  from Cons.prems have x: "0 \<le> x" and xs: "\<forall>x \<in> set xs. 0 \<le> x" by simp_all
  from Cons.IH[OF xs, of "a + x"] x show ?case by fastforce
qed

lemma cumsum_Nil_iff: "cumsum a xs = [] \<longleftrightarrow> xs = []"
  by (cases xs) auto

lemma cumsum_last: "xs \<noteq> [] \<Longrightarrow> last (cumsum a xs) = a + sum_list xs"
  by (induction xs arbitrary: a) (auto simp: add.assoc cumsum_Nil_iff)

lemma cumsum_length: "length (cumsum a xs) = length xs"
  by (induction xs arbitrary: a) auto

lemma group4_flatten4: "group4 (flatten4 ts) = ts"
  by (induction ts) (auto simp: flatten4_def)

lemma tetra_volume_det:
  "tetra_volume v0 v1 v2 v3 = \<bar>spec_det3 (vec_sub v1 v0) (vec_sub v2 v0) (vec_sub v3 v0)\<bar> / 6"
  by (cases v0; cases v1; cases v2; cases v3) (simp add: spec_det3_def vec_sub_def Let_def algebra_simps)

lemma tetra_volume_nonneg: "0 \<le> tetra_volume v0 v1 v2 v3"
  by (simp add: tetra_volume_det)

lemma tetra_vol_of_nonneg: "0 \<le> tetra_vol_of verts t"
  by (cases t) (auto simp: tetra_vol_of_def tetra_volume_nonneg split: sum.splits)

lemma spec_fan_length: "length (spec_fan face) = length face - 2"
  by (simp add: spec_fan_def)

lemma spec_fan_nth:
  assumes "1 \<le> i" "i + 2 \<le> length face"
  shows "spec_fan face ! (i - 1) = (0, face ! 0, face ! i, face ! (i + 1))"
proof -
  have "i - 1 < length [1..<length face - 1]" using assms by simp
  then have "spec_fan face ! (i - 1) =
      (\<lambda>i. (0, face ! 0, face ! i, face ! (i + 1))) ([1..<length face - 1] ! (i - 1))"
    unfolding spec_fan_def by (rule nth_map)
  moreover have "[1..<length face - 1] ! (i - 1) = i" using assms by simp
  ultimately show ?thesis by simp
qed

text \<open>
  C3. The decomposition of a valid cell returns, and what it returns in \<open>t_vert\<close> is the
  specification's list: the faces that contain vertex 0 are left out, every other face
  with \<open>k\<close> vertices gives \<open>k - 2\<close> tetrahedra, the \<open>i\<close>-th being
  \<open>(0, face[0], face[i], face[i+1])\<close> for \<open>i = 1..k-2\<close>, in the order of the faces.
\<close>

theorem decompose_tetrahedra:
  "(valid_cell f_vert verts \<longrightarrow> (\<exists>acc. decompose f_vert verts = Inr acc)) \<and>
   (decompose f_vert verts = Inr (t_vert, c_vol, vol) \<longrightarrow>
      t_vert = flatten4 (spec_tetras f_vert) \<and> group4 t_vert = spec_tetras f_vert) \<and>
   spec_tetras f_vert =
      concat (map spec_fan (filter (\<lambda>face. 0 \<notin> set face) (spec_faces f_vert))) \<and>
   length (spec_fan face) = length face - 2 \<and>
   (1 \<le> i \<and> i + 2 \<le> length face \<longrightarrow>
      spec_fan face ! (i - 1) = (0, face ! 0, face ! i, face ! (i + 1)))"
proof -
  have "decompose f_vert verts = Inr (t_vert, c_vol, vol) \<longrightarrow>
      t_vert = flatten4 (spec_tetras f_vert) \<and> group4 t_vert = spec_tetras f_vert"
    using decompose_result(1)[of f_vert verts t_vert c_vol vol] by (auto simp: group4_flatten4)
  then show ?thesis
    using decompose_total[of f_vert verts] spec_fan_length[of face] spec_fan_nth[of i face]
    by (simp add: spec_tetras_def)
qed

theorem decompose_tetrahedra_witness:
  "valid_cell [4,0,1,2,3, 4,4,5,6,7, 4,0,1,5,4, 4,1,2,6,5, 4,2,3,7,6, 4,3,0,4,7]
     [0,0,0, 1,0,0, 1,1,0, 0,1,0, 0,0,1, 1,0,1, 1,1,1, 0,1,1] \<and>
   decompose [4,0,1,2,3, 4,4,5,6,7, 4,0,1,5,4, 4,1,2,6,5, 4,2,3,7,6, 4,3,0,4,7]
     [0,0,0, 1,0,0, 1,1,0, 0,1,0, 0,0,1, 1,0,1, 1,1,1, 0,1,1]
     = Inr ([0,4,5,6, 0,4,6,7, 0,1,2,6, 0,1,6,5, 0,2,3,7, 0,2,7,6],
            [1/6, 1/3, 1/2, 2/3, 5/6, 1], 1) \<and>
   spec_tetras [4,0,1,2,3, 4,4,5,6,7, 4,0,1,5,4, 4,1,2,6,5, 4,2,3,7,6, 4,3,0,4,7]
     = [(0,4,5,6), (0,4,6,7), (0,1,2,6), (0,1,6,5), (0,2,3,7), (0,2,7,6)] \<and>
   (1 \<le> (2::nat) \<and> (2::nat) + 2 \<le> length [4,5,6,7::int]) \<and>
   spec_fan [4,5,6,7] ! (2 - 1) = (0, [4,5,6,7] ! 0, [4,5,6,7] ! 2, [4,5,6,7] ! (2 + 1))"
proof -
  have v: "valid_cell [4,0,1,2,3, 4,4,5,6,7, 4,0,1,5,4, 4,1,2,6,5, 4,2,3,7,6, 4,3,0,4,7]
     [0,0,0, 1,0,0, 1,1,0, 0,1,0, 0,0,1, 1,0,1, 1,1,1, 0,1,1]"
    by code_simp
  have d: "decompose [4,0,1,2,3, 4,4,5,6,7, 4,0,1,5,4, 4,1,2,6,5, 4,2,3,7,6, 4,3,0,4,7]
     [0,0,0, 1,0,0, 1,1,0, 0,1,0, 0,0,1, 1,0,1, 1,1,1, 0,1,1]
     = Inr ([0,4,5,6, 0,4,6,7, 0,1,2,6, 0,1,6,5, 0,2,3,7, 0,2,7,6],
            [1/6, 1/3, 1/2, 2/3, 5/6, 1], 1)"
    by code_simp
  have g: "group4 [0,4,5,6, 0,4,6,7, 0,1,2,6, 0,1,6,5, 0,2,3,7, 0,2,7,6 :: int]
     = [(0,4,5,6), (0,4,6,7), (0,1,2,6), (0,1,6,5), (0,2,3,7), (0,2,7,6)]"
    by simp
  have n: "1 \<le> (2::nat) \<and> (2::nat) + 2 \<le> length [4,5,6,7::int]" by simp
  note inst = decompose_tetrahedra[of
     "[4,0,1,2,3, 4,4,5,6,7, 4,0,1,5,4, 4,1,2,6,5, 4,2,3,7,6, 4,3,0,4,7]"
     "[0,0,0, 1,0,0, 1,1,0, 0,1,0, 0,0,1, 1,0,1, 1,1,1, 0,1,1]"
     "[0,4,5,6, 0,4,6,7, 0,1,2,6, 0,1,6,5, 0,2,3,7, 0,2,7,6]"
     "[1/6, 1/3, 1/2, 2/3, 5/6, 1]" 1 "[4,5,6,7]" 2]
  from inst d have "group4 [0,4,5,6, 0,4,6,7, 0,1,2,6, 0,1,6,5, 0,2,3,7, 0,2,7,6 :: int] =
      spec_tetras [4,0,1,2,3, 4,4,5,6,7, 4,0,1,5,4, 4,1,2,6,5, 4,2,3,7,6, 4,3,0,4,7]"
    by blast
  with g have s: "spec_tetras [4,0,1,2,3, 4,4,5,6,7, 4,0,1,5,4, 4,1,2,6,5, 4,2,3,7,6, 4,3,0,4,7]
     = [(0,4,5,6), (0,4,6,7), (0,1,2,6), (0,1,6,5), (0,2,3,7), (0,2,7,6)]"
    by simp
  from inst n have f: "spec_fan [4,5,6,7] ! (2 - 1) = (0, [4,5,6,7] ! 0, [4,5,6,7] ! 2, [4,5,6,7] ! (2 + 1))"
    by blast
  show ?thesis using v d s n f by blast
qed

subsection \<open>Cumulative volumes\<close>

text \<open>
  C4. \<open>tetra_volume\<close> is the absolute value of the determinant of the three edge vectors
  divided by 6, so it is not negative. The cumulative volumes that the decomposition
  returns are the running sums of the volumes of the tetrahedra in \<open>t_vert\<close>, in order:
  they never decrease, and the last one is the sum of all these volumes.
\<close>

theorem cumulative_volumes:
  "tetra_volume v0 v1 v2 v3 = \<bar>spec_det3 (vec_sub v1 v0) (vec_sub v2 v0) (vec_sub v3 v0)\<bar> / 6 \<and>
   0 \<le> tetra_volume v0 v1 v2 v3 \<and>
   (decompose f_vert verts = Inr (t_vert, c_vol, vol) \<longrightarrow>
      c_vol = cumsum 0 (map (tetra_vol_of verts) (group4 t_vert)) \<and>
      length c_vol = length (group4 t_vert) \<and>
      sorted c_vol \<and>
      (c_vol \<noteq> [] \<longrightarrow> last c_vol = sum_list (map (tetra_vol_of verts) (group4 t_vert))))"
proof -
  have "c_vol = cumsum 0 (map (tetra_vol_of verts) (group4 t_vert)) \<and>
      length c_vol = length (group4 t_vert) \<and> sorted c_vol \<and>
      (c_vol \<noteq> [] \<longrightarrow> last c_vol = sum_list (map (tetra_vol_of verts) (group4 t_vert)))"
    if d: "decompose f_vert verts = Inr (t_vert, c_vol, vol)"
  proof -
    define vs where "vs = map (tetra_vol_of verts) (group4 t_vert)"
    have g: "group4 t_vert = spec_tetras f_vert"
      using decompose_result(1)[OF d] by (simp add: group4_flatten4)
    have c: "c_vol = cumsum 0 vs"
      using decompose_result(2)[OF d] g by (simp add: vs_def)
    have nn: "\<forall>x \<in> set vs. 0 \<le> x"
      by (auto simp: vs_def tetra_vol_of_nonneg)
    have "sorted c_vol" using cumsum_sorted[OF nn, of 0] c by simp
    moreover have "length c_vol = length (group4 t_vert)"
      using c by (simp add: cumsum_length vs_def)
    moreover have "c_vol \<noteq> [] \<longrightarrow> last c_vol = sum_list vs"
      using c cumsum_last[of vs 0] by (auto simp: cumsum_Nil_iff)
    ultimately show ?thesis using c by (simp add: vs_def)
  qed
  then show ?thesis
    using tetra_volume_det[of v0 v1 v2 v3] tetra_volume_nonneg[of v0 v1 v2 v3] by blast
qed

theorem cumulative_volumes_witness:
  "decompose [4,0,1,2,3, 4,4,5,6,7, 4,0,1,5,4, 4,1,2,6,5, 4,2,3,7,6, 4,3,0,4,7]
     [0,0,0, 1,0,0, 1,1,0, 0,1,0, 0,0,1, 1,0,1, 1,1,1, 0,1,1]
     = Inr ([0,4,5,6, 0,4,6,7, 0,1,2,6, 0,1,6,5, 0,2,3,7, 0,2,7,6],
            [1/6, 1/3, 1/2, 2/3, 5/6, 1], 1) \<and>
   sorted [1/6, 1/3, 1/2, 2/3, 5/6, 1 :: real] \<and>
   last [1/6, 1/3, 1/2, 2/3, 5/6, 1 :: real] =
     sum_list (map (tetra_vol_of [0,0,0, 1,0,0, 1,1,0, 0,1,0, 0,0,1, 1,0,1, 1,1,1, 0,1,1])
       (group4 [0,4,5,6, 0,4,6,7, 0,1,2,6, 0,1,6,5, 0,2,3,7, 0,2,7,6]))"
proof -
  have d: "decompose [4,0,1,2,3, 4,4,5,6,7, 4,0,1,5,4, 4,1,2,6,5, 4,2,3,7,6, 4,3,0,4,7]
     [0,0,0, 1,0,0, 1,1,0, 0,1,0, 0,0,1, 1,0,1, 1,1,1, 0,1,1]
     = Inr ([0,4,5,6, 0,4,6,7, 0,1,2,6, 0,1,6,5, 0,2,3,7, 0,2,7,6],
            [1/6, 1/3, 1/2, 2/3, 5/6, 1], 1)"
    by code_simp
  have ne: "[1/6, 1/3, 1/2, 2/3, 5/6, 1 :: real] \<noteq> []" by simp
  note inst = cumulative_volumes[of _ _ _ _
     "[4,0,1,2,3, 4,4,5,6,7, 4,0,1,5,4, 4,1,2,6,5, 4,2,3,7,6, 4,3,0,4,7]"
     "[0,0,0, 1,0,0, 1,1,0, 0,1,0, 0,0,1, 1,0,1, 1,1,1, 0,1,1]"
     "[0,4,5,6, 0,4,6,7, 0,1,2,6, 0,1,6,5, 0,2,3,7, 0,2,7,6]"
     "[1/6, 1/3, 1/2, 2/3, 5/6, 1]" 1]
  show ?thesis using inst d ne by blast
qed

subsection \<open>Symmetry of the neighbour lists\<close>

lemma sym_inner_unfold:
  "j < length (n_list ! idx) \<Longrightarrow>
   sym_inner idx j n_list =
     (if 0 \<le> n_list ! idx ! j then
        (if nat (n_list ! idx ! j) < length n_list then
           (if int idx \<notin> set (n_list ! nat (n_list ! idx ! j))
            then sym_inner idx (j + 1)
                   (n_list[nat (n_list ! idx ! j) := n_list ! nat (n_list ! idx ! j) @ [int idx]])
            else sym_inner idx (j + 1) n_list)
         else Inl UndefinedBehaviour)
      else sym_inner idx (j + 1) n_list)"
  by (subst sym_inner.simps) (simp add: Let_def)

lemma sym_inner_done: "\<not> j < length (n_list ! idx) \<Longrightarrow> sym_inner idx j n_list = Inr n_list"
  by (subst sym_inner.simps) simp

lemma mirrored_update:
  assumes m: "mirrored n_list a k" and a: "a < length n_list" and k: "k < length (n_list ! a)"
    and c: "c < length n_list"
  shows "mirrored (n_list[c := n_list ! c @ [v]]) a k"
proof -
  let ?nl = "n_list[c := n_list ! c @ [v]]"
  have same: "?nl ! a ! k = n_list ! a ! k"
    using a k c by (cases "a = c") (simp_all add: nth_append)
  have sup: "set (n_list ! i) \<subseteq> set (?nl ! i)" if "i < length n_list" for i
    using that c by (cases "i = c") auto
  show ?thesis
    unfolding mirrored_def same using m sup unfolding mirrored_def by auto
qed

lemma sym_inv_step_keep:
  assumes inv: "sym_inv idx j n_list" and m: "mirrored n_list idx j"
  shows "sym_inv idx (j + 1) n_list"
  unfolding sym_inv_def
proof (intro allI impI)
  fix a k
  assume "a < length n_list" "k < length (n_list ! a)" "a < idx \<or> a = idx \<and> k < j + 1"
  then show "mirrored n_list a k"
    using inv m unfolding sym_inv_def by (cases "a = idx \<and> k = j") auto
qed

lemma sym_inv_step_append:
  assumes inv: "sym_inv idx j n_list" and idx: "idx < length n_list"
    and j: "j < length (n_list ! idx)" and b: "0 \<le> n_list ! idx ! j"
    and r: "nat (n_list ! idx ! j) < length n_list"
    and notin: "int idx \<notin> set (n_list ! nat (n_list ! idx ! j))"
  shows "sym_inv idx (j + 1)
           (n_list[nat (n_list ! idx ! j) := n_list ! nat (n_list ! idx ! j) @ [int idx]])"
proof -
  define c where "c = nat (n_list ! idx ! j)"
  let ?nl = "n_list[c := n_list ! c @ [int idx]]"
  have ne: "c \<noteq> idx"
  proof
    assume "c = idx"
    then have "int idx = n_list ! idx ! j" using b by (simp add: c_def)
    then have "int idx \<in> set (n_list ! idx)" using j by simp
    with notin \<open>c = idx\<close> show False by (simp add: c_def)
  qed
  have c: "c < length n_list" using r by (simp add: c_def)
  have at_idx: "?nl ! idx = n_list ! idx" using ne by simp
  have at_c: "?nl ! c = n_list ! c @ [int idx]" using c by simp
  have "mirrored ?nl a k"
    if a: "a < length ?nl" and k: "k < length (?nl ! a)" and v: "a < idx \<or> a = idx \<and> k < j + 1"
    for a k
  proof (cases "a = c \<and> k = length (n_list ! c)")
    case True
    then have val: "?nl ! a ! k = int idx" using at_c by simp
    have "int c = n_list ! idx ! j" using b by (simp add: c_def)
    then have "int c \<in> set (?nl ! idx)" using at_idx j by simp
    then show ?thesis
      unfolding mirrored_def val using idx True by simp
  next
    case False
    have a': "a < length n_list" using a by simp
    have k': "k < length (n_list ! a)"
      using k False c by (cases "a = c") (simp_all add: at_c)
    show ?thesis
    proof (cases "a = idx \<and> k = j")
      case True
      have "?nl ! idx ! j = n_list ! idx ! j" using at_idx by simp
      moreover have "int idx \<in> set (?nl ! c)" using at_c by simp
      ultimately show ?thesis
        unfolding mirrored_def using True c by (simp add: c_def)
    next
      case False
      with v have "a < idx \<or> a = idx \<and> k < j" by auto
      with inv a' k' have "mirrored n_list a k" unfolding sym_inv_def by blast
      from mirrored_update[OF this a' k' c] show ?thesis .
    qed
  qed
  then show ?thesis unfolding sym_inv_def c_def by blast
qed

lemma sym_inner_inv:
  "sym_inner idx j n_list = Inr n_list' \<Longrightarrow> idx < length n_list \<Longrightarrow> sym_inv idx j n_list \<Longrightarrow>
   length n_list' = length n_list \<and> sym_inv (idx + 1) 0 n_list'"
proof (induction idx j n_list rule: sym_inner.induct)
  case (1 idx j n_list)
  show ?case
  proof (cases "j < length (n_list ! idx)")
    case False
    then have "n_list' = n_list" using "1.prems"(1) by (simp add: sym_inner_done)
    moreover have "sym_inv (idx + 1) 0 n_list"
      using "1.prems"(3) False unfolding sym_inv_def by (auto simp: less_Suc_eq)
    ultimately show ?thesis by simp
  next
    case True
    note u = sym_inner_unfold[OF True]
    show ?thesis
    proof (cases "0 \<le> n_list ! idx ! j")
      case neg: False
      then have m: "mirrored n_list idx j" by (simp add: mirrored_def)
      from "1.prems"(1) neg have r: "sym_inner idx (j + 1) n_list = Inr n_list'"
        by (simp add: u)
      from "1.IH"(3)[OF True refl neg r "1.prems"(2) sym_inv_step_keep[OF "1.prems"(3) m]]
      show ?thesis .
    next
      case pos: True
      from "1.prems"(1) pos have rng: "nat (n_list ! idx ! j) < length n_list"
        by (simp add: u split: if_splits)
      show ?thesis
      proof (cases "int idx \<notin> set (n_list ! nat (n_list ! idx ! j))")
        case True
        note notin = this
        let ?nl = "n_list[nat (n_list ! idx ! j) := n_list ! nat (n_list ! idx ! j) @ [int idx]]"
        from "1.prems"(1) pos rng notin have r: "sym_inner idx (j + 1) ?nl = Inr n_list'"
          by (simp add: u)
        have i: "sym_inv idx (j + 1) ?nl"
          using sym_inv_step_append[OF "1.prems"(3) "1.prems"(2) \<open>j < length (n_list ! idx)\<close> pos rng notin] .
        have l: "idx < length ?nl" using "1.prems"(2) by simp
        from "1.IH"(1)[OF \<open>j < length (n_list ! idx)\<close> refl pos rng notin r l i]
        show ?thesis by simp
      next
        case False
        then have isin: "int idx \<in> set (n_list ! nat (n_list ! idx ! j))" by simp
        then have m: "mirrored n_list idx j" using rng by (simp add: mirrored_def)
        from "1.prems"(1) pos rng isin have r: "sym_inner idx (j + 1) n_list = Inr n_list'"
          by (simp add: u)
        from "1.IH"(2)[OF \<open>j < length (n_list ! idx)\<close> refl pos rng False r "1.prems"(2)
            sym_inv_step_keep[OF "1.prems"(3) m]]
        show ?thesis .
      qed
    qed
  qed
qed

lemma sym_outer_inv:
  "sym_outer idx nsites n_list = Inr n_list' \<Longrightarrow> nsites = length n_list \<Longrightarrow>
   idx \<le> nsites \<Longrightarrow> sym_inv idx 0 n_list \<Longrightarrow>
   length n_list' = length n_list \<and> sym_inv nsites 0 n_list'"
proof (induction idx nsites n_list rule: sym_outer.induct)
  case (1 idx nsites n_list)
  show ?case
  proof (cases "idx < nsites")
    case False
    then have "n_list' = n_list" using "1.prems"(1) by (subst (asm) sym_outer.simps) simp
    moreover have "idx = nsites" using False "1.prems"(3) by simp
    ultimately show ?thesis using "1.prems"(4) by simp
  next
    case True
    from True "1.prems"(1) obtain nl where
      i: "sym_inner idx 0 n_list = Inr nl" and o: "sym_outer (idx + 1) nsites nl = Inr n_list'"
      by (subst (asm) sym_outer.simps) (auto split: sum.splits)
    have "idx < length n_list" using True "1.prems"(2) by simp
    from sym_inner_inv[OF i this "1.prems"(4)]
    have l: "length nl = length n_list" and v: "sym_inv (idx + 1) 0 nl" by simp_all
    have "nsites = length nl" using l "1.prems"(2) by simp
    moreover have "idx + 1 \<le> nsites" using True by simp
    ultimately show ?thesis
      using "1.IH"[OF True i o _ _ v] l by simp
  qed
qed

lemma symmetrize_mirrored:
  assumes "symmetrize n_list = Inr n_list'"
  shows "length n_list' = length n_list"
    and "a < length n_list' \<Longrightarrow> k < length (n_list' ! a) \<Longrightarrow> mirrored n_list' a k"
proof -
  have z: "sym_inv 0 0 n_list" by (simp add: sym_inv_def)
  from sym_outer_inv[OF assms[unfolded symmetrize_def] refl _ z]
  have l: "length n_list' = length n_list" and v: "sym_inv (length n_list) 0 n_list'" by simp_all
  show "length n_list' = length n_list" by (rule l)
  show "mirrored n_list' a k" if "a < length n_list'" "k < length (n_list' ! a)"
    using v that l unfolding sym_inv_def by simp
qed

lemma symmetrize_symmetric:
  assumes s: "symmetrize n_list = Inr n_list'" and a: "a < length n_list'" and b: "b < length n_list'"
  shows "int b \<in> set (n_list' ! a) \<longleftrightarrow> int a \<in> set (n_list' ! b)"
proof -
  have dir: "int y \<in> set (n_list' ! x) \<Longrightarrow> int x \<in> set (n_list' ! y)" if "x < length n_list'" for x y
  proof -
    assume "int y \<in> set (n_list' ! x)"
    then obtain k where k: "k < length (n_list' ! x)" "n_list' ! x ! k = int y"
      by (auto simp: in_set_conv_nth)
    from symmetrize_mirrored(2)[OF s that k(1)] k(2)
    show ?thesis by (simp add: mirrored_def)
  qed
  show ?thesis using dir[OF a, of b] dir[OF b, of a] by blast
qed

lemma appends_iff:
  "(take (length l) l' = l \<and> (\<forall>x \<in> set (drop (length l) l'). (0::int) \<le> x)) \<longleftrightarrow>
   (\<exists>ext. l' = l @ ext \<and> (\<forall>x \<in> set ext. 0 \<le> x))"
proof
  assume h: "take (length l) l' = l \<and> (\<forall>x \<in> set (drop (length l) l'). 0 \<le> x)"
  have "l' = take (length l) l' @ drop (length l) l'" by simp
  with h have "l' = l @ drop (length l) l'" by simp
  with h show "\<exists>ext. l' = l @ ext \<and> (\<forall>x \<in> set ext. 0 \<le> x)" by blast
next
  assume "\<exists>ext. l' = l @ ext \<and> (\<forall>x \<in> set ext. 0 \<le> x)"
  then show "take (length l) l' = l \<and> (\<forall>x \<in> set (drop (length l) l'). 0 \<le> x)" by auto
qed

lemma appends_site_ids_alt:
  "appends_site_ids old new \<longleftrightarrow>
     (length new = length old \<and>
      (\<forall>i < length old. \<exists>ext. new ! i = old ! i @ ext \<and> (\<forall>x \<in> set ext. 0 \<le> x)))"
  unfolding appends_site_ids_def appends_iff ..

lemma appends_site_ids_refl: "appends_site_ids n_list n_list"
  by (simp add: appends_site_ids_alt)

lemma appends_site_ids_trans:
  assumes "appends_site_ids a b" "appends_site_ids b c"
  shows "appends_site_ids a c"
proof -
  have l: "length b = length a" "length c = length b"
    using assms by (simp_all add: appends_site_ids_alt)
  have "\<exists>ext. c ! i = a ! i @ ext \<and> (\<forall>x \<in> set ext. 0 \<le> x)" if i: "i < length a" for i
  proof -
    from assms(1) i obtain e1 where e1: "b ! i = a ! i @ e1" "\<forall>x \<in> set e1. 0 \<le> x"
      unfolding appends_site_ids_alt by blast
    from assms(2) i l obtain e2 where e2: "c ! i = b ! i @ e2" "\<forall>x \<in> set e2. 0 \<le> x"
      unfolding appends_site_ids_alt by force
    have "c ! i = a ! i @ (e1 @ e2)" using e1(1) e2(1) by simp
    moreover have "\<forall>x \<in> set (e1 @ e2). 0 \<le> x" using e1(2) e2(2) by auto
    ultimately show ?thesis by blast
  qed
  then show ?thesis using l by (simp add: appends_site_ids_alt)
qed

lemma appends_site_ids_update:
  assumes "c < length n_list"
  shows "appends_site_ids n_list (n_list[c := n_list ! c @ [int idx]])"
proof -
  have "\<exists>ext. n_list[c := n_list ! c @ [int idx]] ! i = n_list ! i @ ext \<and> (\<forall>x \<in> set ext. 0 \<le> x)"
    if "i < length n_list" for i
  proof (cases "i = c")
    case True
    then have "n_list[c := n_list ! c @ [int idx]] ! i = n_list ! i @ [int idx]"
      using assms by simp
    then show ?thesis by fastforce
  next
    case False
    then have "n_list[c := n_list ! c @ [int idx]] ! i = n_list ! i @ []" by simp
    then show ?thesis by fastforce
  qed
  then show ?thesis by (simp add: appends_site_ids_alt)
qed

lemma sym_inner_appends:
  "sym_inner idx j n_list = Inr n_list' \<Longrightarrow> appends_site_ids n_list n_list'"
proof (induction idx j n_list rule: sym_inner.induct)
  case (1 idx j n_list)
  show ?case
  proof (cases "j < length (n_list ! idx)")
    case False
    then show ?thesis using "1.prems" by (simp add: sym_inner_done appends_site_ids_refl)
  next
    case True
    note u = sym_inner_unfold[OF True]
    show ?thesis
    proof (cases "0 \<le> n_list ! idx ! j")
      case neg: False
      from "1.prems" neg have "sym_inner idx (j + 1) n_list = Inr n_list'" by (simp add: u)
      from "1.IH"(3)[OF True refl neg this] show ?thesis .
    next
      case pos: True
      from "1.prems" pos have rng: "nat (n_list ! idx ! j) < length n_list"
        by (simp add: u split: if_splits)
      show ?thesis
      proof (cases "int idx \<notin> set (n_list ! nat (n_list ! idx ! j))")
        case True
        let ?nl = "n_list[nat (n_list ! idx ! j) := n_list ! nat (n_list ! idx ! j) @ [int idx]]"
        from "1.prems" pos rng True have "sym_inner idx (j + 1) ?nl = Inr n_list'"
          by (simp add: u)
        from "1.IH"(1)[OF \<open>j < length (n_list ! idx)\<close> refl pos rng True this]
        have "appends_site_ids ?nl n_list'" .
        with appends_site_ids_update[OF rng, of idx] show ?thesis
          by (rule appends_site_ids_trans)
      next
        case False
        with "1.prems" pos rng have "sym_inner idx (j + 1) n_list = Inr n_list'"
          by (simp add: u)
        from "1.IH"(2)[OF \<open>j < length (n_list ! idx)\<close> refl pos rng False this] show ?thesis .
      qed
    qed
  qed
qed

lemma sym_outer_appends:
  "sym_outer idx nsites n_list = Inr n_list' \<Longrightarrow> appends_site_ids n_list n_list'"
proof (induction idx nsites n_list rule: sym_outer.induct)
  case (1 idx nsites n_list)
  show ?case
  proof (cases "idx < nsites")
    case False
    then have "n_list' = n_list" using "1.prems" by (subst (asm) sym_outer.simps) simp
    then show ?thesis by (simp add: appends_site_ids_refl)
  next
    case True
    from True "1.prems" obtain nl where
      i: "sym_inner idx 0 n_list = Inr nl" and o: "sym_outer (idx + 1) nsites nl = Inr n_list'"
      by (subst (asm) sym_outer.simps) (auto split: sum.splits)
    from sym_inner_appends[OF i] "1.IH"[OF True i o] show ?thesis
      by (rule appends_site_ids_trans)
  qed
qed

lemma ids_in_range_update:
  assumes "ids_in_range n_list" "idx < length n_list"
  shows "ids_in_range (n_list[c := n_list ! c @ [int idx]])"
proof (cases "c < length n_list")
  case False
  then have "n_list[c := n_list ! c @ [int idx]] = n_list" by (simp add: list_update_beyond)
  then show ?thesis using assms(1) by simp
next
  case True
  have "x < int (length n_list)"
    if "l \<in> set (n_list[c := n_list ! c @ [int idx]])" "x \<in> set l" for l x
  proof -
    from that(1) have "l = n_list ! c @ [int idx] \<or> l \<in> set n_list"
      using set_update_subset_insert[of n_list c "n_list ! c @ [int idx]"] by auto
    moreover have "n_list ! c \<in> set n_list" using True by simp
    ultimately show ?thesis using that(2) assms unfolding ids_in_range_def by auto
  qed
  then show ?thesis unfolding ids_in_range_def by simp
qed

lemma sym_inner_total:
  "ids_in_range n_list \<Longrightarrow> idx < length n_list \<Longrightarrow>
   \<exists>n_list'. sym_inner idx j n_list = Inr n_list' \<and> ids_in_range n_list' \<and>
     length n_list' = length n_list"
proof (induction idx j n_list rule: sym_inner.induct)
  case (1 idx j n_list)
  show ?case
  proof (cases "j < length (n_list ! idx)")
    case False
    then show ?thesis using "1.prems" by (simp add: sym_inner_done)
  next
    case True
    note u = sym_inner_unfold[OF True]
    have "n_list ! idx \<in> set n_list" using "1.prems"(2) by simp
    moreover have "n_list ! idx ! j \<in> set (n_list ! idx)" using True by simp
    ultimately have lt: "n_list ! idx ! j < int (length n_list)"
      using "1.prems"(1) unfolding ids_in_range_def by blast
    show ?thesis
    proof (cases "0 \<le> n_list ! idx ! j")
      case neg: False
      from "1.IH"(3)[OF True refl neg "1.prems"] show ?thesis using neg by (simp add: u)
    next
      case pos: True
      then have rng: "nat (n_list ! idx ! j) < length n_list" using lt by simp
      show ?thesis
      proof (cases "int idx \<notin> set (n_list ! nat (n_list ! idx ! j))")
        case True
        let ?nl = "n_list[nat (n_list ! idx ! j) := n_list ! nat (n_list ! idx ! j) @ [int idx]]"
        have "ids_in_range ?nl" using ids_in_range_update[OF "1.prems"] .
        moreover have "idx < length ?nl" using "1.prems"(2) by simp
        ultimately show ?thesis
          using "1.IH"(1)[OF \<open>j < length (n_list ! idx)\<close> refl pos rng True] pos rng True
          by (simp add: u)
      next
        case False
        from "1.IH"(2)[OF \<open>j < length (n_list ! idx)\<close> refl pos rng False "1.prems"]
        show ?thesis using pos rng False by (simp add: u)
      qed
    qed
  qed
qed

lemma sym_outer_total:
  "ids_in_range n_list \<Longrightarrow> nsites = length n_list \<Longrightarrow>
   \<exists>n_list'. sym_outer idx nsites n_list = Inr n_list'"
proof (induction idx nsites n_list rule: sym_outer.induct)
  case (1 idx nsites n_list)
  show ?case
  proof (cases "idx < nsites")
    case False
    then show ?thesis by (subst sym_outer.simps) simp
  next
    case True
    then have "idx < length n_list" using "1.prems"(2) by simp
    from sym_inner_total[OF "1.prems"(1) this, of 0] obtain nl where
      i: "sym_inner idx 0 n_list = Inr nl" and r: "ids_in_range nl" and l: "length nl = length n_list"
      by blast
    have "nsites = length nl" using l "1.prems"(2) by simp
    from "1.IH"[OF True i r this] show ?thesis
      using True i by (subst sym_outer.simps) simp
  qed
qed

text \<open>
  C1. When every neighbour is a wall marker or the id of a site, the pass returns. What
  it returns is symmetric on site ids: for sites \<open>a\<close> and \<open>b\<close>, \<open>b\<close> is in the list of \<open>a\<close>
  exactly when \<open>a\<close> is in the list of \<open>b\<close>. Every list is the list before the pass
  followed by values that are not negative: no wall marker is appended.
\<close>

theorem symmetrize_symmetric_closure:
  "(ids_in_range n_list \<longrightarrow> (\<exists>n_list'. symmetrize n_list = Inr n_list')) \<and>
   (symmetrize n_list = Inr n_list' \<longrightarrow>
      length n_list' = length n_list \<and>
      (\<forall>a < length n_list'. \<forall>b < length n_list'.
         int b \<in> set (n_list' ! a) \<longleftrightarrow> int a \<in> set (n_list' ! b)) \<and>
      appends_site_ids n_list n_list')"
proof -
  have "ids_in_range n_list \<longrightarrow> (\<exists>n_list'. symmetrize n_list = Inr n_list')"
    using sym_outer_total[of n_list "length n_list" 0] by (simp add: symmetrize_def)
  moreover have "length n_list' = length n_list \<and>
      (\<forall>a < length n_list'. \<forall>b < length n_list'.
         int b \<in> set (n_list' ! a) \<longleftrightarrow> int a \<in> set (n_list' ! b)) \<and>
      appends_site_ids n_list n_list'" if s: "symmetrize n_list = Inr n_list'"
    using symmetrize_mirrored(1)[OF s] symmetrize_symmetric[OF s]
      sym_outer_appends[OF s[unfolded symmetrize_def]] by blast
  ultimately show ?thesis by blast
qed

theorem symmetrize_symmetric_closure_witness:
  "ids_in_range [[1, 2, -1], [2], [], [0, -3]] \<and>
   symmetrize [[1, 2, -1], [2], [], [0, -3]] = Inr [[1, 2, -1, 3], [2, 0], [0, 1], [0, -3]] \<and>
   (0 :: nat) < length [[1, 2, -1, 3], [2, 0], [0, 1], [0, -3 :: int]] \<and>
   (3 :: nat) < length [[1, 2, -1, 3], [2, 0], [0, 1], [0, -3 :: int]] \<and>
   (int 3 \<in> set ([[1, 2, -1, 3], [2, 0], [0, 1], [0, -3]] ! 0) \<longleftrightarrow>
    int 0 \<in> set ([[1, 2, -1, 3], [2, 0], [0, 1], [0, -3]] ! 3)) \<and>
   int 3 \<in> set ([[1, 2, -1, 3], [2, 0], [0, 1], [0, -3]] ! 0) \<and>
   appends_site_ids [[1, 2, -1], [2], [], [0, -3]] [[1, 2, -1, 3], [2, 0], [0, 1], [0, -3]]"
proof -
  have r: "ids_in_range [[1, 2, -1], [2], [], [0, -3]]"
    by (simp add: ids_in_range_def)
  have s: "symmetrize [[1, 2, -1], [2], [], [0, -3]] = Inr [[1, 2, -1, 3], [2, 0], [0, 1], [0, -3]]"
    by code_simp
  have l: "(0 :: nat) < length [[1, 2, -1, 3], [2, 0], [0, 1], [0, -3 :: int]]"
    "(3 :: nat) < length [[1, 2, -1, 3], [2, 0], [0, 1], [0, -3 :: int]]"
    by simp_all
  have m: "int 3 \<in> set ([[1, 2, -1, 3], [2, 0], [0, 1], [0, -3]] ! 0)" by simp
  show ?thesis
    using symmetrize_symmetric_closure[of "[[1, 2, -1], [2], [], [0, -3]]"
        "[[1, 2, -1, 3], [2, 0], [0, 1], [0, -3]]"] r s l m
    by blast
qed


subsection \<open>The widest row and the dense matrix\<close>

lemma max_element_loop_length:
  "length (max_element_loop size_cmp l xs) = Max (length ` set (l # xs))"
proof (induction xs arbitrary: l)
  case Nil
  then show ?case by simp
next
  case (Cons x xs)
  have "length (if size_cmp l x then x else l) = max (length l) (length x)"
    by (simp add: size_cmp_def)
  then have "length (max_element_loop size_cmp l (x # xs)) =
      Max (insert (max (length l) (length x)) (length ` set xs))"
    using Cons.IH[of "if size_cmp l x then x else l"] by simp
  also have "\<dots> = Max (length ` set (l # x # xs))"
  proof (cases "xs = []")
    case True
    then show ?thesis by (simp add: max.commute)
  next
    case False
    then have ne: "length ` set xs \<noteq> {}" by simp
    have f: "finite (length ` set xs)" by simp
    show ?thesis using ne f by (simp add: max.assoc)
  qed
  finally show ?case .
qed

lemma max_size_nonempty:
  "rows \<noteq> [] \<Longrightarrow> max_size rows = Inr (Max (length ` set rows))"
  using max_element_loop_length[of "hd rows" "tl rows"]
  by (cases rows) (simp_all add: max_size_def max_element_def)

lemma max_size_empty: "max_size ([] :: 'a list list) = Inl UndefinedBehaviour"
  by (simp add: max_size_def max_element_def)

lemma padded_row_length: "length row \<le> width \<Longrightarrow> length (padded_row pad width row) = width"
  by (simp add: padded_row_def)

lemma write_row:
  assumes len: "length row \<le> m" and fits: "m * idx + m \<le> length buf"
  shows "\<exists>buf1 buf2. std_copy row (m * idx) buf = Inr buf1 \<and>
           std_fill (m * idx + length row) (m * idx + m) pad buf1 = Inr buf2 \<and>
           buf2 = take (m * idx) buf @ padded_row pad m row @ drop (m * idx + m) buf"
proof -
  define buf1 where "buf1 = take (m * idx) buf @ row @ drop (m * idx + length row) buf"
  have c: "std_copy row (m * idx) buf = Inr buf1"
    using len fits by (simp add: std_copy_def buf1_def)
  have l1: "length buf1 = length buf" using len fits by (simp add: buf1_def)
  define buf2 where "buf2 = take (m * idx + length row) buf1 @
      replicate (m * idx + m - (m * idx + length row)) pad @ drop (m * idx + m) buf1"
  have f: "std_fill (m * idx + length row) (m * idx + m) pad buf1 = Inr buf2"
    using len fits l1 by (simp add: std_fill_def buf2_def)
  have t: "take (m * idx + length row) buf1 = take (m * idx) buf @ row"
    using len fits by (simp add: buf1_def)
  have "drop (m * idx + m) buf1 = drop (m - length row) (drop (m * idx + length row) buf)"
    using len fits by (simp add: buf1_def)
  also have "\<dots> = drop (m * idx + m) buf" using len by (simp add: add.commute)
  finally have d: "drop (m * idx + m) buf1 = drop (m * idx + m) buf" .
  have "buf2 = take (m * idx) buf @ padded_row pad m row @ drop (m * idx + m) buf"
    unfolding buf2_def t d padded_row_def by simp
  with c f show ?thesis by blast
qed

lemma take_drop_append: "k + m \<le> length A \<Longrightarrow> take m (drop k (A @ B)) = take m (drop k A)"
  by simp

lemma row_of_before:
  assumes "i < idx" "m * idx \<le> length buf"
  shows "row_of m (take (m * idx) buf @ rest) i = row_of m buf i"
proof -
  have "m * i + m \<le> m * idx"
  proof -
    have "m * i + m = m * Suc i" by simp
    also have "\<dots> \<le> m * idx" using assms(1) by (intro mult_le_mono2) simp
    finally show ?thesis .
  qed
  then have le: "m * i + m \<le> length (take (m * idx) buf)" using assms(2) by simp
  have "take m (drop (m * i) (take (m * idx) buf @ rest)) = take m (drop (m * i) (take (m * idx) buf))"
    using le by (rule take_drop_append)
  also have "\<dots> = take m (take (m * idx - m * i) (drop (m * i) buf))"
    by (simp add: drop_take)
  also have "\<dots> = take m (drop (m * i) buf)"
    using \<open>m * i + m \<le> m * idx\<close> by (simp add: min_def)
  finally show ?thesis by (simp add: row_of_def)
qed

lemma row_of_at:
  assumes "m * idx \<le> length buf" "length g = m"
  shows "row_of m (take (m * idx) buf @ g @ rest) idx = g"
  using assms by (simp add: row_of_def)

lemma pack_loop_rows:
  "length buf = nsites * m \<Longrightarrow> nsites = length rows \<Longrightarrow> \<forall>row \<in> set rows. length row \<le> m \<Longrightarrow>
   idx \<le> nsites \<Longrightarrow> \<forall>i < nsites. fits_int (m * i) \<Longrightarrow>
   \<forall>i < idx. row_of m buf i = padded_row pad m (rows ! i) \<Longrightarrow>
   \<exists>buf'. pack_loop pad m rows nsites idx (Some buf) = Inr (Some buf') \<and>
     length buf' = nsites * m \<and>
     (\<forall>i < nsites. row_of m buf' i = padded_row pad m (rows ! i))"
proof (induction k \<equiv> "nsites - idx" arbitrary: idx buf)
  case 0
  then have "idx = nsites" by simp
  then have "pack_loop pad m rows nsites idx (Some buf) = Inr (Some buf)"
    by (subst pack_loop.simps) simp
  then show ?case using "0.prems" \<open>idx = nsites\<close> by simp
next
  case (Suc k)
  then have True: "idx < nsites" by simp
  then have inr: "idx < length rows" using Suc.prems(2) by simp
  then have len: "length (rows ! idx) \<le> m" using Suc.prems(3) by simp
  have fi: "fits_int (m * idx)" using Suc.prems(5) True by simp
  have "m * idx + m = m * Suc idx" by simp
  also have "\<dots> \<le> m * nsites" using True by (intro mult_le_mono2) simp
  finally have fits: "m * idx + m \<le> length buf" using Suc.prems(1) by (simp add: mult.commute)
  from write_row[OF len fits, of pad] obtain buf1 buf2 where
    c: "std_copy (rows ! idx) (m * idx) buf = Inr buf1" and
    f: "std_fill (m * idx + length (rows ! idx)) (m * idx + m) pad buf1 = Inr buf2" and
    b2: "buf2 = take (m * idx) buf @ padded_row pad m (rows ! idx) @ drop (m * idx + m) buf"
    by blast
  have mi: "m * idx \<le> length buf" using fits by simp
  have l2: "length buf2 = nsites * m"
    using fits Suc.prems(1) len unfolding b2 by (simp add: padded_row_length)
  have r2: "\<forall>i < idx + 1. row_of m buf2 i = padded_row pad m (rows ! i)"
  proof (intro allI impI)
    fix i assume "i < idx + 1"
    show "row_of m buf2 i = padded_row pad m (rows ! i)"
    proof (cases "i = idx")
      case True
      then show ?thesis
        unfolding b2 using row_of_at[OF mi padded_row_length[OF len]] by simp
    next
      case False
      with \<open>i < idx + 1\<close> have "i < idx" by simp
      then show ?thesis
        unfolding b2 using row_of_before[OF _ mi] Suc.prems(6) by simp
    qed
  qed
  have k: "k = nsites - (idx + 1)" using Suc.hyps(2) by simp
  have "idx + 1 \<le> nsites" using True by simp
  from Suc.hyps(1)[OF k l2 Suc.prems(2) Suc.prems(3) this Suc.prems(5) r2]
  show ?case
    using True inr fi c f by (subst pack_loop.simps) (simp add: buf_copy_def buf_fill_def)
qed

lemma pack_loop_fits:
  "pack_loop pad m rows nsites idx buf = Inr buf' \<Longrightarrow> idx \<le> i \<Longrightarrow> i < nsites \<Longrightarrow>
   fits_int (m * i) \<and> i < length rows"
proof (induction k \<equiv> "nsites - idx" arbitrary: idx buf)
  case 0
  then show ?case by simp
next
  case (Suc k)
  then have lt: "idx < nsites" by simp
  from Suc.prems(1) have ok: "idx < length rows \<and> fits_int (m * idx)"
    using lt by (subst (asm) pack_loop.simps) (simp split: if_splits)
  from Suc.prems(1) obtain buf2 where
    n: "pack_loop pad m rows nsites (idx + 1) buf2 = Inr buf'"
    using lt ok by (subst (asm) pack_loop.simps) (auto split: sum.splits)
  show ?case
  proof (cases "i = idx")
    case True
    then show ?thesis using ok by simp
  next
    case False
    then have "idx + 1 \<le> i" using Suc.prems(2) by simp
    moreover have "k = nsites - (idx + 1)" using Suc.hyps(2) by simp
    ultimately show ?thesis using Suc.hyps(1)[OF _ n _ Suc.prems(3)] by simp
  qed
qed

lemma pack_loop_null:
  "pack_loop pad m rows nsites idx None = Inr buf' \<Longrightarrow>
   buf' = None \<and> (idx < nsites \<longrightarrow> m = 0) \<and> (\<forall>i. idx \<le> i \<and> i < nsites \<longrightarrow> rows ! i = [])"
proof (induction k \<equiv> "nsites - idx" arbitrary: idx)
  case 0
  then have "\<not> idx < nsites" by simp
  then show ?case using "0.prems" by (subst (asm) pack_loop.simps) auto
next
  case (Suc k)
  then have lt: "idx < nsites" by simp
  from Suc.prems(1) have ok: "idx < length rows \<and> fits_int (m * idx)"
    using lt by (subst (asm) pack_loop.simps) (simp split: if_splits)
  from Suc.prems(1) have c: "rows ! idx = [] \<and> m * idx = 0"
    using lt ok by (subst (asm) pack_loop.simps) (simp add: buf_copy_def split: if_splits)
  from Suc.prems(1) have f: "m = 0"
    using lt ok c by (subst (asm) pack_loop.simps) (simp add: buf_copy_def buf_fill_def split: if_splits)
  from Suc.prems(1) have n: "pack_loop pad m rows nsites (idx + 1) None = Inr buf'"
    using lt ok c f by (subst (asm) pack_loop.simps) (simp add: buf_copy_def buf_fill_def)
  have k: "k = nsites - (idx + 1)" using Suc.hyps(2) by simp
  note ih = Suc.hyps(1)[OF k n]
  have "rows ! i = []" if "idx \<le> i \<and> i < nsites" for i
  proof (cases "i = idx")
    case True
    then show ?thesis using c by simp
  next
    case False
    then have "idx + 1 \<le> i \<and> i < nsites" using that by simp
    then show ?thesis using ih by blast
  qed
  then show ?case using ih f by blast
qed

lemma size_mul_exact: "a * b < 18446744073709551616 \<Longrightarrow> size_mul a b = a * b"
  by (simp add: size_mul_def)

lemma matrix_bytes:
  assumes es: "es \<le> 8" and last: "m * (nsites - 1) \<le> 2147483647" and m: "m \<le> 2147483647"
    and n1: "1 \<le> nsites" and m1: "1 \<le> m"
  shows "size_mul (size_mul es nsites) m = es * nsites * m"
proof -
  have "1 * (nsites - 1) \<le> m * (nsites - 1)" using m1 by (intro mult_le_mono1)
  then have "nsites - 1 \<le> m * (nsites - 1)" by (simp only: nat_mult_1)
  from this last have "nsites - 1 \<le> 2147483647" by (rule le_trans)
  then have n: "nsites \<le> 2147483648" by simp
  have "es * nsites \<le> 8 * 2147483648" using es n by (intro mult_le_mono)
  then have a: "size_mul es nsites = es * nsites" by (intro size_mul_exact) simp
  have "nsites * m = m * (nsites - 1) + m" using n1 by (cases nsites) simp_all
  then have "nsites * m \<le> 4294967294" using last m by simp
  then have "es * (nsites * m) \<le> 8 * 4294967294" using es by (intro mult_le_mono)
  then have "es * nsites * m < 18446744073709551616" by (simp add: mult.assoc)
  then show ?thesis unfolding a by (rule size_mul_exact)
qed

lemma malloc_matrix_length:
  assumes es: "0 < es" "es \<le> 8" and m: "fits_int m"
    and last: "1 \<le> nsites \<longrightarrow> fits_int (m * (nsites - 1))"
    and al: "malloc ok es (size_mul (size_mul es nsites) m) junk = Some b"
  shows "length b = nsites * m"
proof (cases "m = 0 \<or> nsites = 0")
  case True
  then have "size_mul (size_mul es nsites) m = 0" by (auto simp: size_mul_def)
  then show ?thesis using al True by (auto simp: malloc_def split: if_splits)
next
  case False
  then have "size_mul (size_mul es nsites) m = es * nsites * m"
    using matrix_bytes[OF es(2), of m nsites] m last by (simp add: fits_int_def INT_MAX_def)
  moreover have "es * nsites * m div es = nsites * m" using es(1) by (simp add: mult.assoc)
  ultimately show ?thesis using al by (auto simp: malloc_def split: if_splits)
qed

lemma fill_matrix_result:
  assumes fm: "fill_matrix ok es pad junk nsites m rows = Inr buf"
    and n: "nsites = length rows" and le: "\<forall>row \<in> set rows. length row \<le> m"
    and m: "fits_int m" and es: "0 < es" "es \<le> 8"
  shows "length (buffer_cells buf) = nsites * m"
    and "\<forall>i < nsites. row_of m (buffer_cells buf) i = padded_row pad m (rows ! i)"
    and "buf = None \<longrightarrow> nsites * m = 0"
    and "(\<forall>bytes. ok bytes) \<longrightarrow> buf \<noteq> None"
proof -
  define al where "al = malloc ok es (size_mul (size_mul es nsites) m) junk"
  have pl: "pack_loop pad m rows nsites 0 al = Inr buf"
    using fm by (simp add: fill_matrix_def al_def)
  have fits: "\<forall>i < nsites. fits_int (m * i)" using pack_loop_fits[OF pl] by simp
  have "length (buffer_cells buf) = nsites * m \<and>
     (\<forall>i < nsites. row_of m (buffer_cells buf) i = padded_row pad m (rows ! i)) \<and>
     (buf = None \<longrightarrow> nsites * m = 0) \<and> ((\<forall>bytes. ok bytes) \<longrightarrow> buf \<noteq> None)"
  proof (cases al)
    case None
    note nl = pack_loop_null[OF pl[unfolded None]]
    have ok: "\<not> (\<forall>bytes. ok bytes)" using None by (auto simp: al_def malloc_def split: if_splits)
    show ?thesis
    proof (cases "nsites = 0")
      case True
      then show ?thesis using nl ok by (simp add: buffer_cells_def row_of_def)
    next
      case False
      then have m0: "m = 0" using nl by simp
      have "rows ! i = []" if "i < nsites" for i using nl that by simp
      then show ?thesis using nl ok m0 by (simp add: buffer_cells_def row_of_def padded_row_def)
    qed
  next
    case (Some b)
    have last: "1 \<le> nsites \<longrightarrow> fits_int (m * (nsites - 1))" using fits by simp
    have lb: "length b = nsites * m"
      using malloc_matrix_length[OF es m last] Some by (simp add: al_def)
    from pack_loop_rows[OF lb n le _ fits, of 0 pad] pl Some
    show ?thesis by (auto simp: buffer_cells_def)
  qed
  then show "length (buffer_cells buf) = nsites * m"
    and "\<forall>i < nsites. row_of m (buffer_cells buf) i = padded_row pad m (rows ! i)"
    and "buf = None \<longrightarrow> nsites * m = 0"
    and "(\<forall>bytes. ok bytes) \<longrightarrow> buf \<noteq> None"
    by blast+
qed

lemma row_width_result:
  assumes "row_width rows = Inr m"
  shows "rows \<noteq> []" and "m = Max (length ` set rows)" and "fits_int m"
    and "\<forall>row \<in> set rows. length row \<le> m"
proof -
  from assms have ne: "rows \<noteq> []"
    by (auto simp: row_width_def max_size_empty split: sum.splits)
  from assms max_size_nonempty[OF ne] show m: "m = Max (length ` set rows)" and "fits_int m"
    by (auto simp: row_width_def split: if_splits)
  show "rows \<noteq> []" by (rule ne)
  show "\<forall>row \<in> set rows. length row \<le> m" unfolding m by simp
qed

subsection \<open>The block grid\<close>
















subsection \<open>Sampling a cell whose tetrahedra have no volume\<close>

lemma upper_bound_none: "\<forall>x \<in> set xs. x \<le> v \<Longrightarrow> upper_bound xs v = None"
  by (induction xs) auto

lemma sample_turn_miss:
  "upper_bound c_vol r_vol = None \<Longrightarrow>
   sample_turn c_vol t_vert verts idx n_samples i r_vol sp_st = None"
  by (simp add: sample_turn_def)

lemma sample_loop_returns:
  assumes "sample_loop c_vol t_vert verts c_factor off n_samples i sp_st = Some y"
  shows "\<not> ((\<forall>r :: nat. upper_bound c_vol (real r * c_factor) = None) \<and> int i < n_samples)"
proof (rule sample_loop.raw_induct[where
      P = "\<lambda>cv tv vs cf off ns i st y.
             \<not> ((\<forall>r :: nat. upper_bound cv (real r * cf) = None) \<and> int i < ns)",
      OF _ assms])
  fix f :: "real list \<Rightarrow> int list \<Rightarrow> real list \<Rightarrow> real \<Rightarrow> nat \<Rightarrow> int \<Rightarrow> nat \<Rightarrow>
     real list option \<times> rand_state \<Rightarrow> (error + real list option \<times> rand_state) option"
  fix cv tv vs cf off' ns i' st y'
  assume ih: "\<And>cv tv vs cf off ns i st y. f cv tv vs cf off ns i st = Some y \<Longrightarrow>
      \<not> ((\<forall>r :: nat. upper_bound cv (real r * cf) = None) \<and> int i < ns)"
  assume eq: "(if int i' < ns
      then case sample_turn cv tv vs off' ns i' (real (fst (std_rand (snd st))) * cf)
                  (fst st, snd (std_rand (snd st))) of
             None \<Rightarrow> f cv tv vs cf off' ns i' (fst st, snd (std_rand (snd st)))
           | Some (Inl e) \<Rightarrow> Some (Inl e)
           | Some (Inr sp_st') \<Rightarrow> f cv tv vs cf off' ns (i' + 1) sp_st'
      else Some (Inr st)) = Some y'"
  show "\<not> ((\<forall>r :: nat. upper_bound cv (real r * cf) = None) \<and> int i' < ns)"
  proof
    assume h: "(\<forall>r :: nat. upper_bound cv (real r * cf) = None) \<and> int i' < ns"
    then have "sample_turn cv tv vs off' ns i'
        (real (fst (std_rand (snd st))) * cf) (fst st, snd (std_rand (snd st))) = None"
      by (simp add: sample_turn_miss)
    with h eq have "f cv tv vs cf off' ns i' (fst st, snd (std_rand (snd st))) = Some y'"
      by simp
    from ih[OF this] h show False by blast
  qed
qed

lemma sample_loop_diverges:
  assumes "\<forall>x \<in> set c_vol. x \<le> 0" "c_factor = 0" "int i < n_samples"
  shows "sample_loop c_vol t_vert verts c_factor off n_samples i sp_st = None"
proof (cases "sample_loop c_vol t_vert verts c_factor off n_samples i sp_st")
  case None
  then show ?thesis .
next
  case (Some y)
  have "\<forall>r :: nat. upper_bound c_vol (real r * c_factor) = None"
    using assms(1,2) by (simp add: upper_bound_none)
  with sample_loop_returns[OF Some] assms(3) show ?thesis by blast
qed

lemma cumsum_bounds:
  "\<forall>x \<in> set xs. 0 \<le> x \<Longrightarrow> xs \<noteq> [] \<Longrightarrow> \<forall>y \<in> set (cumsum a xs). a \<le> y \<and> y \<le> last (cumsum a xs)"
proof (induction xs arbitrary: a)
  case Nil
  then show ?case by simp
next
  case (Cons x xs)
  from Cons.prems have x: "0 \<le> x" and xs: "\<forall>x \<in> set xs. 0 \<le> x" by simp_all
  show ?case
  proof (cases "xs = []")
    case True
    then show ?thesis using x by simp
  next
    case False
    then have ne: "cumsum (a + x) xs \<noteq> []" by (simp add: cumsum_Nil_iff)
    from Cons.IH[OF xs False, of "a + x"]
    have ih: "\<forall>y \<in> set (cumsum (a + x) xs). a + x \<le> y \<and> y \<le> last (cumsum (a + x) xs)" .
    have "last (cumsum (a + x) xs) \<in> set (cumsum (a + x) xs)" using ne by simp
    with ih have "a + x \<le> last (cumsum (a + x) xs)" by blast
    with ih x ne show ?thesis by auto
  qed
qed

lemma decompose_c_vol_range:
  assumes d: "decompose f_vert verts = Inr (t_vert, c_vol, vol)" and ne: "c_vol \<noteq> []"
  shows "\<forall>y \<in> set c_vol. 0 \<le> y \<and> y \<le> last c_vol"
proof -
  define vs where "vs = map (tetra_vol_of verts) (spec_tetras f_vert)"
  have c: "c_vol = cumsum 0 vs" using decompose_result(2)[OF d] by (simp add: vs_def)
  have nn: "\<forall>x \<in> set vs. 0 \<le> x" by (auto simp: vs_def tetra_vol_of_nonneg)
  have "vs \<noteq> []" using ne c by (auto simp: cumsum_Nil_iff)
  from cumsum_bounds[OF nn this, of 0] show ?thesis unfolding c .
qed

lemma sample_cell_degenerate:
  assumes d: "decompose f_vert verts = Inr (t_vert, c_vol, vol)" and ne: "c_vol \<noteq> []"
    and z: "last c_vol \<le> 0" and n: "1 \<le> n_samples"
  shows "sample_cell f_vert verts idx n_samples sp_st = None"
proof -
  from decompose_c_vol_range[OF d ne] have r: "\<forall>y \<in> set c_vol. 0 \<le> y \<and> y \<le> last c_vol" .
  have "last c_vol \<in> set c_vol" using ne by simp
  with r z have l0: "last c_vol = 0" by fastforce
  with r have all0: "\<forall>x \<in> set c_vol. x \<le> 0" by simp
  have "sample_loop c_vol t_vert verts (last c_vol / (real (RAND_MAX (snd sp_st)) + 1))
      idx n_samples 0 sp_st = None"
    using sample_loop_diverges[OF all0, of "last c_vol / (real (RAND_MAX (snd sp_st)) + 1)" 0 n_samples]
      l0 n by simp
  then show ?thesis using d ne by (simp add: sample_cell_def)
qed

lemma sample_cell_no_samples:
  assumes d: "decompose f_vert verts = Inr (t_vert, c_vol, vol)" and ne: "c_vol \<noteq> []"
    and n: "n_samples \<le> 0"
  shows "sample_cell f_vert verts idx n_samples sp_st = Some (Inr sp_st)"
proof -
  have "sample_loop c_vol t_vert verts c_factor off n_samples 0 sp_st = Some (Inr sp_st)"
    for c_factor off
    using n by (subst sample_loop.simps) simp
  then show ?thesis using d ne by (simp add: sample_cell_def)
qed

lemma flat_cell_decompose:
  "decompose [3, 1, 2, 3] [0,0,0, 1,0,0, 0,1,0, 1,1,0] = Inr ([0, 1, 2, 3], [0], 0)"
  by code_simp

lemma root3_small:
  assumes "- 1 < x" "x < 1"
  shows "double_to_int (Fin (root 3 x)) = Inr 0"
proof -
  have u: "root 3 x < 1" using assms(2) by (simp add: real_root_lt_1_iff)
  have "root 3 (- 1) < root 3 x" using assms(1) by (subst real_root_less_iff) simp_all
  then have l: "- 1 < root 3 x" by (simp add: real_root_minus)
  show ?thesis
  proof (cases "0 \<le> root 3 x")
    case True
    then have "\<lfloor>root 3 x\<rfloor> = 0" using u by (intro floor_unique) simp_all
    then show ?thesis using True by simp
  next
    case False
    then have "\<lceil>root 3 x\<rceil> = 0" using l by (intro ceiling_unique) simp_all
    then show ?thesis using False by simp
  qed
qed

lemma unit_cube_block_grid:
  assumes "- 5 < nsites" "nsites < 5"
  shows "block_grid exact_ops 0 1 0 1 0 1 nsites = Inr (1, 1, 1)"
proof -
  have "double_to_int (Fin (root 3 (real_of_int nsites / 5))) = Inr 0"
    using assms by (intro root3_small) simp_all
  then have "block_count exact_ops 0 1 (Fin 1) (Fin (root 3 (real_of_int nsites / 5))) = Inr 1"
    by (simp add: block_count_def axis_value_def exact_ops_def)
  then show ?thesis
    by (simp add: block_grid_def grid_vol_edge_def grid_block_edge_def exact_ops_def
        particle_block_def Let_def)
qed

lemma cell_loop_degenerate:
  assumes s: "store_cell with_vertices nsites c s = Inr s1"
    and d: "decompose (cell_face_vertices c) (cell_vertices c) = Inr (t_vert, c_vol, vol)"
    and ne: "c_vol \<noteq> []" and z: "last c_vol \<le> 0" and n: "1 \<le> n_samples"
  shows "cell_loop with_vertices True n_samples nsites (c # cs) s = None"
  using s sample_cell_degenerate[OF d ne z n, of "nat (cell_idx c)" "(ls_spoints s1, ls_rng s1)"]
  by simp

lemma flat_cell_bounding_box:
  "bounding_box [0,0,0, 1,0,0, 0,1,0, 1,1,0] = Inr ([0, 0, 0], [1, 1, 0])"
  by code_simp

lemma flat_cell_store: "\<exists>s1. store_cell False 1 flat_cell flat_state = Inr s1"
  by (simp add: store_cell_def flat_cell_def flat_state_def flat_cell_bounding_box buf_copy_def
      std_copy_def fits_int_def INT_MAX_def)

lemma replicate_3: "replicate 3 x = [x, x, x]"
  by (simp add: numeral_3_eq_3)

lemma flat_initial_state: "initial_state flat_args flat_env = flat_state"
  by (simp add: initial_state_def flat_args_def flat_env_def flat_state_def malloc_def
      enough_memory_def spoints_bytes_def size_mul_def size_t_of_int_def sizeof_double_def
      replicate_3)

lemma flat_compute_cells: "compute_cells flat_args flat_env = None"
proof -
  from flat_cell_store obtain s1 where s: "store_cell False 1 flat_cell flat_state = Inr s1"
    by blast
  have d: "decompose (cell_face_vertices flat_cell) (cell_vertices flat_cell) = Inr ([0, 1, 2, 3], [0], 0)"
    using flat_cell_decompose by (simp add: flat_cell_def)
  have l: "cell_loop False True 1 1 [flat_cell] flat_state = None"
    by (rule cell_loop_degenerate[OF s d]) simp_all
  have g: "block_grid exact_ops 0 1 0 1 0 1 1 = Inr (1, 1, 1)"
    by (rule unit_cube_block_grid) simp_all
  have a: "arg_xmin flat_args = 0" "arg_xmax flat_args = 1" "arg_ymin flat_args = 0"
    "arg_ymax flat_args = 1" "arg_zmin flat_args = 0" "arg_zmax flat_args = 1"
    "arg_nsites flat_args = 1" "arg_points flat_args = [1/2, 1/2, 1/2]"
    "arg_with_vertices flat_args = False" "arg_with_sampling flat_args = True"
    "arg_n_samples flat_args = 1" "arg_wall_str flat_args = []"
    "env_double_ops flat_env = exact_ops" "env_cells flat_env = [flat_cell]"
    by (simp_all add: flat_args_def flat_env_def)
  show ?thesis
    unfolding compute_cells_def a flat_initial_state[unfolded a] g
    using l flat_initial_state by (simp add: a add_walls_def fits_int_def INT_MAX_def)
qed

text \<open>
  C2, as stated, fails: the call with the flat cell, whose one tetrahedron has volume 0
  (the cumulative volumes are \<open>[0]\<close>), returns neither an error message nor anything
  else: it never returns.
\<close>

theorem degenerate_sampling_counterexample:
  "decompose (cell_face_vertices flat_cell) (cell_vertices flat_cell) = Inr ([0, 1, 2, 3], [0], 0) \<and>
   hyperion_voropp_wrap flat_args flat_env null_outputs = None"
  using flat_cell_decompose flat_compute_cells
  by (simp add: hyperion_voropp_wrap_def try_block_def flat_cell_def)

text \<open>
  C2, amended. When the decomposition of a cell is not empty and its last cumulative
  volume is not positive, sampling that cell surfaces no error and writes no point: with
  at least one sample asked for, every draw is rejected and drawn again, so the sampling
  of the cell, and with it the loop over the cells, never ends; with no sample asked
  for, the loop is not entered and the buffer is left as it was.
\<close>

theorem degenerate_sampling_never_ends:
  assumes "decompose (cell_face_vertices c) (cell_vertices c) = Inr (t_vert, c_vol, vol)"
    and "c_vol \<noteq> []" and "last c_vol \<le> 0"
  shows "(1 \<le> n_samples \<longrightarrow>
            sample_cell (cell_face_vertices c) (cell_vertices c) idx n_samples sp_st = None \<and>
            (\<forall>s1. store_cell with_vertices nsites c s = Inr s1 \<longrightarrow>
               cell_loop with_vertices True n_samples nsites (c # cs) s = None)) \<and>
         (n_samples \<le> 0 \<longrightarrow>
            sample_cell (cell_face_vertices c) (cell_vertices c) idx n_samples sp_st =
              Some (Inr sp_st))"
  using sample_cell_degenerate[OF assms, of n_samples idx sp_st]
    cell_loop_degenerate[OF _ assms, of with_vertices nsites s _ n_samples cs]
    sample_cell_no_samples[OF assms(1,2), of n_samples idx sp_st]
  by blast

theorem degenerate_sampling_never_ends_witness:
  "decompose (cell_face_vertices flat_cell) (cell_vertices flat_cell) = Inr ([0, 1, 2, 3], [0], 0) \<and>
   [0 :: real] \<noteq> [] \<and> last [0 :: real] \<le> 0 \<and> (1 :: int) \<le> 2 \<and>
   sample_cell (cell_face_vertices flat_cell) (cell_vertices flat_cell) 0 2
     (Some [7, 7, 7, 7, 7, 7], \<lparr>RAND_MAX = 32767, draws = constant_draws 1, calls = 0\<rparr>) = None \<and>
   (\<exists>s1. store_cell False 1 flat_cell
     flat_state = Inr s1) \<and>
   cell_loop False True 2 1 [flat_cell]
     flat_state = None \<and>
   (0 :: int) \<le> 0 \<and>
   sample_cell (cell_face_vertices flat_cell) (cell_vertices flat_cell) 0 0
     (Some [], \<lparr>RAND_MAX = 32767, draws = constant_draws 1, calls = 0\<rparr>)
     = Some (Inr (Some [], \<lparr>RAND_MAX = 32767, draws = constant_draws 1, calls = 0\<rparr>))"
proof -
  have d: "decompose (cell_face_vertices flat_cell) (cell_vertices flat_cell) = Inr ([0, 1, 2, 3], [0], 0)"
    using flat_cell_decompose by (simp add: flat_cell_def)
  have h: "[0 :: real] \<noteq> []" "last [0 :: real] \<le> 0" "(1 :: int) \<le> 2" "(0 :: int) \<le> 0"
    by simp_all
  note st = flat_cell_store
  from degenerate_sampling_never_ends[OF d h(1) h(2), of 2 0
      "(Some [7, 7, 7, 7, 7, 7], \<lparr>RAND_MAX = 32767, draws = constant_draws 1, calls = 0\<rparr>)"
      False 1 flat_state "[]"] h(3) st
  have a: "sample_cell (cell_face_vertices flat_cell) (cell_vertices flat_cell) 0 2
     (Some [7, 7, 7, 7, 7, 7], \<lparr>RAND_MAX = 32767, draws = constant_draws 1, calls = 0\<rparr>) = None"
    and b: "cell_loop False True 2 1 [flat_cell]
     flat_state = None"
    by blast+
  from degenerate_sampling_never_ends[OF d h(1) h(2), of 0 0
      "(Some [], \<lparr>RAND_MAX = 32767, draws = constant_draws 1, calls = 0\<rparr>)"] h(4)
  have c: "sample_cell (cell_face_vertices flat_cell) (cell_vertices flat_cell) 0 0
     (Some [], \<lparr>RAND_MAX = 32767, draws = constant_draws 1, calls = 0\<rparr>)
     = Some (Inr (Some [], \<lparr>RAND_MAX = 32767, draws = constant_draws 1, calls = 0\<rparr>))"
    by blast
  show ?thesis using d h a b c st by blast
qed

subsection \<open>The wrapper\<close>

lemma sym_inner_error: "sym_inner idx j n_list = Inl e \<Longrightarrow> e = UndefinedBehaviour"
proof (induction idx j n_list rule: sym_inner.induct)
  case (1 idx j n_list)
  show ?case
  proof (cases "j < length (n_list ! idx)")
    case False
    then show ?thesis using "1.prems" by (simp add: sym_inner_done)
  next
    case True
    note u = sym_inner_unfold[OF True]
    show ?thesis
    proof (cases "0 \<le> n_list ! idx ! j")
      case neg: False
      from "1.prems" neg have "sym_inner idx (j + 1) n_list = Inl e" by (simp add: u)
      from "1.IH"(3)[OF True refl neg this] show ?thesis .
    next
      case pos: True
      show ?thesis
      proof (cases "nat (n_list ! idx ! j) < length n_list")
        case False
        then show ?thesis using "1.prems" pos by (simp add: u)
      next
        case rng: True
        show ?thesis
        proof (cases "int idx \<notin> set (n_list ! nat (n_list ! idx ! j))")
          case True
          with "1.prems" pos rng have "sym_inner idx (j + 1)
              (n_list[nat (n_list ! idx ! j) := n_list ! nat (n_list ! idx ! j) @ [int idx]]) = Inl e"
            by (simp add: u)
          from "1.IH"(1)[OF \<open>j < length (n_list ! idx)\<close> refl pos rng True this] show ?thesis .
        next
          case False
          with "1.prems" pos rng have "sym_inner idx (j + 1) n_list = Inl e" by (simp add: u)
          from "1.IH"(2)[OF \<open>j < length (n_list ! idx)\<close> refl pos rng False this] show ?thesis .
        qed
      qed
    qed
  qed
qed

lemma sym_outer_error: "sym_outer idx nsites n_list = Inl e \<Longrightarrow> e = UndefinedBehaviour"
proof (induction idx nsites n_list rule: sym_outer.induct)
  case (1 idx nsites n_list)
  show ?case
  proof (cases "idx < nsites")
    case False
    then show ?thesis using "1.prems" by (subst (asm) sym_outer.simps) simp
  next
    case True
    show ?thesis
    proof (cases "sym_inner idx 0 n_list")
      case (Inl e')
      then have "e' = e" using True "1.prems" by (subst (asm) sym_outer.simps) simp
      with sym_inner_error[OF Inl] show ?thesis by simp
    next
      case (Inr nl)
      then have "sym_outer (idx + 1) nsites nl = Inl e"
        using True "1.prems" by (subst (asm) sym_outer.simps) simp
      from "1.IH"[OF True Inr this] show ?thesis .
    qed
  qed
qed

lemma symmetrize_error: "symmetrize n_list = Inl e \<Longrightarrow> e = UndefinedBehaviour"
  unfolding symmetrize_def by (rule sym_outer_error)

lemma buf_copy_error: "buf_copy src off buf = Inl e \<Longrightarrow> e = UndefinedBehaviour"
  by (auto simp: buf_copy_def std_copy_def split: option.splits if_splits)

lemma buf_fill_error: "buf_fill lo hi v buf = Inl e \<Longrightarrow> e = UndefinedBehaviour"
  by (auto simp: buf_fill_def std_fill_def split: option.splits if_splits)

lemma pack_loop_error:
  "pack_loop pad m rows nsites idx buf = Inl e \<Longrightarrow> e = UndefinedBehaviour"
proof (induction pad m rows nsites idx buf rule: pack_loop.induct)
  case (1 pad m rows nsites idx buf)
  from "1.prems" have lt: "idx < nsites"
    by (subst (asm) pack_loop.simps) (simp split: if_splits)
  show ?case
  proof (cases "idx < length rows \<and> fits_int (m * idx)")
    case False
    then show ?thesis using lt "1.prems" by (subst (asm) pack_loop.simps) auto
  next
    case True
    show ?thesis
    proof (cases "buf_copy (rows ! idx) (m * idx) buf")
      case (Inl e1)
      then have "e1 = e" using lt True "1.prems" by (subst (asm) pack_loop.simps) simp
      with buf_copy_error[OF Inl] show ?thesis by simp
    next
      case c: (Inr buf1)
      show ?thesis
      proof (cases "buf_fill (m * idx + length (rows ! idx)) (m * idx + m) pad buf1")
        case (Inl e2)
        then have "e2 = e" using lt True c "1.prems" by (subst (asm) pack_loop.simps) simp
        with buf_fill_error[OF Inl] show ?thesis by simp
      next
        case (Inr buf2)
        then have "pack_loop pad m rows nsites (idx + 1) buf2 = Inl e"
          using lt True c "1.prems" by (subst (asm) pack_loop.simps) simp
        from "1.IH"[OF lt True c Inr this] show ?thesis .
      qed
    qed
  qed
qed

lemma row_width_error: "row_width rows = Inl e \<Longrightarrow> e = UndefinedBehaviour"
  by (auto simp: row_width_def max_size_def split: sum.splits option.splits if_splits)

lemma fill_matrix_error:
  "fill_matrix ok es pad junk nsites m rows = Inl e \<Longrightarrow> e = UndefinedBehaviour"
  unfolding fill_matrix_def by (rule pack_loop_error)

lemma pack_vertices_error:
  "pack_vertices a env s out = (Inl e, out') \<Longrightarrow> e = UndefinedBehaviour"
  by (auto simp: pack_vertices_def split: if_splits sum.splits
      dest: row_width_error fill_matrix_error)

lemma hand_over_error: "hand_over a env s out = (Inl e, out') \<Longrightarrow> e = UndefinedBehaviour"
  by (auto simp: hand_over_def split: sum.splits prod.splits
      dest: symmetrize_error row_width_error fill_matrix_error pack_vertices_error)
















lemma compute_cells_reached:
  assumes "compute_cells a env = Some (Inr s)"
  shows "0 \<le> arg_nsites a"
    and "\<exists>ws. add_walls \<lparr>wall_ptr = env_wall_ptr env, con_walls = []\<rparr> (arg_wall_str a)
           (arg_wall_args_arr a) (arg_n_wall_args a) = Inr ws"
    and "cell_loop (arg_with_vertices a) (arg_with_sampling a) (arg_n_samples a)
            (nat (arg_nsites a)) (env_cells env) (initial_state a env) = Some (Inr s)"
    and "nat (arg_nsites a) \<le> 2147483647"
proof -
  from assms show "0 \<le> arg_nsites a"
    and "\<exists>ws. add_walls \<lparr>wall_ptr = env_wall_ptr env, con_walls = []\<rparr> (arg_wall_str a)
           (arg_wall_args_arr a) (arg_n_wall_args a) = Inr ws"
    and "cell_loop (arg_with_vertices a) (arg_with_sampling a) (arg_n_samples a)
            (nat (arg_nsites a)) (env_cells env) (initial_state a env) = Some (Inr s)"
    by (auto simp: compute_cells_def split: sum.splits if_splits)
  from assms have "1 \<le> arg_nsites a \<longrightarrow> (nat (arg_nsites a) - 1) * 3 + 2 \<le> 2147483647"
    by (auto simp: compute_cells_def fits_int_def INT_MAX_def split: sum.splits if_splits)
  then show "nat (arg_nsites a) \<le> 2147483647" by (cases "1 \<le> arg_nsites a") auto
qed

lemma store_cell_lengths:
  "store_cell with_vertices nsites c s = Inr s1 \<Longrightarrow>
   length (ls_n_list s1) = length (ls_n_list s) \<and>
   length (ls_vertices_list s1) = length (ls_vertices_list s)"
  by (auto simp: store_cell_def split: if_splits sum.splits prod.splits)

lemma cell_loop_lengths:
  "cell_loop with_vertices with_sampling n_samples nsites cs s = Some (Inr s') \<Longrightarrow>
   length (ls_n_list s') = length (ls_n_list s) \<and>
   length (ls_vertices_list s') = length (ls_vertices_list s)"
proof (induction cs arbitrary: s)
  case Nil
  then show ?case by simp
next
  case (Cons c cs)
  from Cons.prems obtain s1 where s1: "store_cell with_vertices nsites c s = Inr s1"
    by (auto split: sum.splits)
  note l1 = store_cell_lengths[OF s1]
  show ?case
  proof (cases with_sampling)
    case False
    with Cons.prems s1 have "cell_loop with_vertices with_sampling n_samples nsites cs s1 = Some (Inr s')"
      by simp
    from Cons.IH[OF this] l1 show ?thesis by simp
  next
    case True
    with Cons.prems s1 obtain sp st where
      "cell_loop with_vertices with_sampling n_samples nsites cs
         (s1\<lparr>ls_spoints := sp, ls_rng := st\<rparr>) = Some (Inr s')"
      by (auto split: option.splits sum.splits)
    from Cons.IH[OF this] l1 show ?thesis by simp
  qed
qed

lemma compute_cells_lengths:
  assumes "compute_cells a env = Some (Inr s)"
  shows "0 \<le> arg_nsites a" and "length (ls_n_list s) = nat (arg_nsites a)"
    and "arg_with_vertices a \<longrightarrow> length (ls_vertices_list s) = nat (arg_nsites a)"
proof -
  note r = compute_cells_reached[OF assms]
  from cell_loop_lengths[OF r(3)] r(1)
  show "0 \<le> arg_nsites a" "length (ls_n_list s) = nat (arg_nsites a)"
    "arg_with_vertices a \<longrightarrow> length (ls_vertices_list s) = nat (arg_nsites a)"
    by (simp_all add: initial_state_def)
qed

lemma wrap_cases:
  "hyperion_voropp_wrap a env out =
     (case compute_cells a env of
        None \<Rightarrow> None
      | Some (Inl (InvalidArgument what)) \<Rightarrow> Some (Inr (Some (error_message what), out))
      | Some (Inl (LengthError what)) \<Rightarrow> Some (Inr (Some (error_message what), out))
      | Some (Inl UndefinedBehaviour) \<Rightarrow> Some (Inl UndefinedBehaviour)
      | Some (Inr s) \<Rightarrow>
          (case hand_over a env s out of
             (Inl e, out') \<Rightarrow> Some (Inl UndefinedBehaviour)
           | (Inr u, out') \<Rightarrow> Some (Inr (None, out'))))"
proof (cases "compute_cells a env")
  case None
  then show ?thesis by (simp add: hyperion_voropp_wrap_def try_block_def)
next
  case (Some r)
  show ?thesis
  proof (cases r)
    case (Inl e)
    then show ?thesis using Some
      by (cases e) (simp_all add: hyperion_voropp_wrap_def try_block_def)
  next
    case (Inr s)
    obtain r2 o2 where h: "hand_over a env s out = (r2, o2)" by (cases "hand_over a env s out")
    show ?thesis
    proof (cases r2)
      case (Inl e)
      from hand_over_error[OF h[unfolded Inl]] Inl h Inr Some show ?thesis
        by (simp add: hyperion_voropp_wrap_def try_block_def)
    next
      case i: (Inr u)
      then show ?thesis using h Inr Some
        by (simp add: hyperion_voropp_wrap_def try_block_def)
    qed
  qed
qed



lemma wrap_success:
  "hyperion_voropp_wrap a env out = Some (Inr (None, out')) \<longleftrightarrow>
   (\<exists>s. compute_cells a env = Some (Inr s) \<and> hand_over a env s out = (Inr (), out'))"
  unfolding wrap_cases
  by (auto split: option.splits sum.splits error.splits prod.splits)

lemma pack_vertices_result:
  assumes p: "pack_vertices a env s out = (Inr (), out')"
    and lv: "arg_with_vertices a \<longrightarrow> length (ls_vertices_list s) = nat (arg_nsites a)"
  shows "out_max_nn out' = out_max_nn out"
    and "\<not> arg_with_vertices a \<Longrightarrow> out_max_nv out' = 0 \<and> out_vertices out' = out_vertices out"
    and "arg_with_vertices a \<Longrightarrow>
        ls_vertices_list s \<noteq> [] \<and>
        out_max_nv out' = int (Max (length ` set (ls_vertices_list s))) \<and>
        length (buffer_cells (out_vertices out')) =
          nat (arg_nsites a) * Max (length ` set (ls_vertices_list s)) \<and>
        (\<forall>i < nat (arg_nsites a).
           row_of (Max (length ` set (ls_vertices_list s))) (buffer_cells (out_vertices out')) i =
             map Some (ls_vertices_list s ! i) @
             replicate (Max (length ` set (ls_vertices_list s)) - length (ls_vertices_list s ! i)) None) \<and>
        (out_vertices out' = None \<longrightarrow> Max (length ` set (ls_vertices_list s)) = 0) \<and>
        ((\<forall>bytes. env_malloc_ok env 5 bytes) \<longrightarrow> out_vertices out' \<noteq> None)"
proof -
  show "out_max_nn out' = out_max_nn out"
    using p by (auto simp: pack_vertices_def split: if_splits sum.splits)
  show "\<not> arg_with_vertices a \<Longrightarrow> out_max_nv out' = 0 \<and> out_vertices out' = out_vertices out"
    using p by (auto simp: pack_vertices_def)
  show "ls_vertices_list s \<noteq> [] \<and>
        out_max_nv out' = int (Max (length ` set (ls_vertices_list s))) \<and>
        length (buffer_cells (out_vertices out')) =
          nat (arg_nsites a) * Max (length ` set (ls_vertices_list s)) \<and>
        (\<forall>i < nat (arg_nsites a).
           row_of (Max (length ` set (ls_vertices_list s))) (buffer_cells (out_vertices out')) i =
             map Some (ls_vertices_list s ! i) @
             replicate (Max (length ` set (ls_vertices_list s)) - length (ls_vertices_list s ! i)) None) \<and>
        (out_vertices out' = None \<longrightarrow> Max (length ` set (ls_vertices_list s)) = 0) \<and>
        ((\<forall>bytes. env_malloc_ok env 5 bytes) \<longrightarrow> out_vertices out' \<noteq> None)"
    if wv: "arg_with_vertices a"
  proof -
    define rows where "rows = map (map Some) (ls_vertices_list s)"
    from p wv obtain m verts where
      w: "row_width rows = Inr m"
      and f: "fill_matrix (env_malloc_ok env 5) sizeof_double None (env_junk_vertex env)
                (nat (arg_nsites a)) m rows = Inr verts"
      and o: "out' = out\<lparr>out_max_nv := int m, out_vertices := verts\<rparr>"
      by (auto simp: pack_vertices_def rows_def split: sum.splits)
    have n: "nat (arg_nsites a) = length rows" using lv wv by (simp add: rows_def)
    note rw = row_width_result[OF w]
    have es: "0 < sizeof_double" "sizeof_double \<le> 8" by (simp_all add: sizeof_double_def)
    note fr = fill_matrix_result[OF f n rw(4) rw(3) es]
    have "length ` set rows = length ` set (ls_vertices_list s)"
      by (simp add: rows_def image_image)
    then have m: "m = Max (length ` set (ls_vertices_list s))" using rw(2) by simp
    have ne: "ls_vertices_list s \<noteq> []" using rw(1) by (simp add: rows_def)
    then have n1: "0 < nat (arg_nsites a)" using lv wv by (metis length_greater_0_conv)
    have r: "row_of m (buffer_cells verts) i = map Some (ls_vertices_list s ! i) @
        replicate (m - length (ls_vertices_list s ! i)) None" if "i < nat (arg_nsites a)" for i
      using fr(2) that n by (simp add: rows_def padded_row_def)
    have z: "verts = None \<longrightarrow> m = 0" using fr(3) n1 by simp
    show ?thesis using o ne fr(1) fr(4) r z unfolding m by simp
  qed
qed

lemma hand_over_result:
  assumes h: "hand_over a env s out = (Inr (), out')"
    and ln: "length (ls_n_list s) = nat (arg_nsites a)"
    and lv: "arg_with_vertices a \<longrightarrow> length (ls_vertices_list s) = nat (arg_nsites a)"
  shows "\<exists>n_list'.
      symmetrize (ls_n_list s) = Inr n_list' \<and> n_list' \<noteq> [] \<and>
      length n_list' = nat (arg_nsites a) \<and>
      out_max_nn out' = int (Max (length ` set n_list')) \<and>
      length (buffer_cells (out_neighbours out')) = nat (arg_nsites a) * Max (length ` set n_list') \<and>
      (\<forall>i < nat (arg_nsites a).
         row_of (Max (length ` set n_list')) (buffer_cells (out_neighbours out')) i =
           n_list' ! i @ replicate (Max (length ` set n_list') - length (n_list' ! i)) neighbour_pad) \<and>
      (out_neighbours out' = None \<longrightarrow> Max (length ` set n_list') = 0) \<and>
      ((\<forall>bytes. env_malloc_ok env 4 bytes) \<longrightarrow> out_neighbours out' \<noteq> None)"
    and "out_volumes out' = ls_vols s \<and> out_bb_min out' = ls_bb_m s \<and>
         out_bb_max out' = ls_bb_M s \<and> out_sample_points out' = ls_spoints s"
    and "arg_with_vertices a \<Longrightarrow>
        ls_vertices_list s \<noteq> [] \<and>
        out_max_nv out' = int (Max (length ` set (ls_vertices_list s))) \<and>
        length (buffer_cells (out_vertices out')) =
          nat (arg_nsites a) * Max (length ` set (ls_vertices_list s)) \<and>
        (\<forall>i < nat (arg_nsites a).
           row_of (Max (length ` set (ls_vertices_list s))) (buffer_cells (out_vertices out')) i =
             map Some (ls_vertices_list s ! i) @
             replicate (Max (length ` set (ls_vertices_list s)) - length (ls_vertices_list s ! i)) None) \<and>
        (out_vertices out' = None \<longrightarrow> Max (length ` set (ls_vertices_list s)) = 0) \<and>
        ((\<forall>bytes. env_malloc_ok env 5 bytes) \<longrightarrow> out_vertices out' \<noteq> None)"
    and "\<not> arg_with_vertices a \<Longrightarrow> out_max_nv out' = 0 \<and> out_vertices out' = out_vertices out"
proof -
  from h obtain nl m neighs o2 where
    sy: "symmetrize (ls_n_list s) = Inr nl"
    and w: "row_width nl = Inr m"
    and f: "fill_matrix (env_malloc_ok env 4) sizeof_int neighbour_pad (env_junk_int env)
              (nat (arg_nsites a)) m nl = Inr neighs"
    and pv: "pack_vertices a env s (out\<lparr>out_max_nn := int m\<rparr>) = (Inr (), o2)"
    and o: "out' = o2\<lparr>out_volumes := ls_vols s, out_bb_min := ls_bb_m s,
              out_bb_max := ls_bb_M s, out_neighbours := neighs,
              out_sample_points := ls_spoints s\<rparr>"
    by (auto simp: hand_over_def split: sum.splits prod.splits)
  have l: "length nl = nat (arg_nsites a)" using symmetrize_mirrored(1)[OF sy] ln by simp
  note rw = row_width_result[OF w]
  have es: "0 < sizeof_int" "sizeof_int \<le> 8" by (simp_all add: sizeof_int_def)
  note fr = fill_matrix_result[OF f l[symmetric] rw(4) rw(3) es]
  note v = pack_vertices_result[OF pv lv]
  have n1: "0 < nat (arg_nsites a)" using rw(1) l by (metis length_greater_0_conv)
  have mm: "out_max_nn out' = int m" using o v(1) by simp
  have z: "neighs = None \<longrightarrow> m = 0" using fr(3) n1 by simp
  have r: "row_of m (buffer_cells neighs) i = nl ! i @ replicate (m - length (nl ! i)) neighbour_pad"
    if "i < nat (arg_nsites a)" for i
    using fr(2) that by (simp add: padded_row_def)
  show "\<exists>n_list'.
      symmetrize (ls_n_list s) = Inr n_list' \<and> n_list' \<noteq> [] \<and>
      length n_list' = nat (arg_nsites a) \<and>
      out_max_nn out' = int (Max (length ` set n_list')) \<and>
      length (buffer_cells (out_neighbours out')) = nat (arg_nsites a) * Max (length ` set n_list') \<and>
      (\<forall>i < nat (arg_nsites a).
         row_of (Max (length ` set n_list')) (buffer_cells (out_neighbours out')) i =
           n_list' ! i @ replicate (Max (length ` set n_list') - length (n_list' ! i)) neighbour_pad) \<and>
      (out_neighbours out' = None \<longrightarrow> Max (length ` set n_list') = 0) \<and>
      ((\<forall>bytes. env_malloc_ok env 4 bytes) \<longrightarrow> out_neighbours out' \<noteq> None)"
    using sy rw(1) l mm fr(1) fr(4) r z o unfolding rw(2) by auto
  show "out_volumes out' = ls_vols s \<and> out_bb_min out' = ls_bb_m s \<and>
         out_bb_max out' = ls_bb_M s \<and> out_sample_points out' = ls_spoints s"
    using o by simp
  show "ls_vertices_list s \<noteq> [] \<and>
        out_max_nv out' = int (Max (length ` set (ls_vertices_list s))) \<and>
        length (buffer_cells (out_vertices out')) =
          nat (arg_nsites a) * Max (length ` set (ls_vertices_list s)) \<and>
        (\<forall>i < nat (arg_nsites a).
           row_of (Max (length ` set (ls_vertices_list s))) (buffer_cells (out_vertices out')) i =
             map Some (ls_vertices_list s ! i) @
             replicate (Max (length ` set (ls_vertices_list s)) - length (ls_vertices_list s ! i)) None) \<and>
        (out_vertices out' = None \<longrightarrow> Max (length ` set (ls_vertices_list s)) = 0) \<and>
        ((\<forall>bytes. env_malloc_ok env 5 bytes) \<longrightarrow> out_vertices out' \<noteq> None)"
    if "arg_with_vertices a"
    using v(3) that o by simp
  show "out_max_nv out' = 0 \<and> out_vertices out' = out_vertices out" if "\<not> arg_with_vertices a"
    using v(2) that o by simp
qed

lemma hand_over_no_sites:
  assumes "ls_n_list s = []"
  shows "fst (hand_over a env s out) = Inl UndefinedBehaviour"
proof -
  have "symmetrize [] = Inr []" by (simp add: symmetrize_def sym_outer.simps)
  then show ?thesis using assms by (simp add: hand_over_def row_width_def max_size_empty)
qed








subsection \<open>The example calls\<close>

lemma three_bounding_boxes:
  "bounding_box [0,0,0, 1,0,0, 0,1,0] = Inr ([0, 0, 0], [1, 1, 0])"
  "bounding_box [0,0,0, 1,0,0, 0,1,0, 0,0,1] = Inr ([0, 0, 0], [1, 1, 1])"
  "bounding_box [1,1,1] = Inr ([1, 1, 1], [1, 1, 1])"
  by code_simp+

lemma replicate_small:
  "replicate 2 x = [x, x]"
  "replicate 4 x = [x, x, x, x]"
  "replicate 9 x = [x, x, x, x, x, x, x, x, x]"
  "replicate 15 x = [x, x, x, x, x, x, x, x, x, x, x, x, x, x, x]"
  "replicate 36 x = [x, x, x, x, x, x, x, x, x, x, x, x, x, x, x, x, x, x,
                     x, x, x, x, x, x, x, x, x, x, x, x, x, x, x, x, x, x]"
  by (simp_all add: numeral_eq_Suc)

lemma fits_small: "n \<le> 100 \<Longrightarrow> fits_int n"
  by (simp add: fits_int_def INT_MAX_def)

lemma three_initial_state:
  "initial_state three_args three_env =
     \<lparr>ls_n_list = [[], [], []], ls_vertices_list = [[], [], []], ls_vols = Some [0, 0, 0],
      ls_bb_m = Some [0,0,0, 0,0,0, 0,0,0], ls_bb_M = Some [0,0,0, 0,0,0, 0,0,0],
      ls_spoints = None,
      ls_rng = \<lparr>RAND_MAX = 32767, draws = constant_draws 0, calls = 0\<rparr>\<rparr>"
  by (simp add: initial_state_def three_args_def three_env_def malloc_def enough_memory_def
      size_mul_def sizeof_double_def replicate_3 replicate_small)

lemma three_cell_loop:
  "cell_loop True False 0 3 three_cells
     \<lparr>ls_n_list = [[], [], []], ls_vertices_list = [[], [], []], ls_vols = Some [0, 0, 0],
      ls_bb_m = Some [0,0,0, 0,0,0, 0,0,0], ls_bb_M = Some [0,0,0, 0,0,0, 0,0,0],
      ls_spoints = None,
      ls_rng = \<lparr>RAND_MAX = 32767, draws = constant_draws 0, calls = 0\<rparr>\<rparr> =
   Some (Inr three_state)"
  by (simp add: three_cells_def three_state_def store_cell_def three_bounding_boxes buf_copy_def
      std_copy_def fits_small)

lemma three_compute_cells: "compute_cells three_args three_env = Some (Inr three_state)"
proof -
  have g: "block_grid exact_ops 0 1 0 1 0 1 3 = Inr (1, 1, 1)"
    by (rule unit_cube_block_grid) simp_all
  have a: "arg_xmin three_args = 0" "arg_xmax three_args = 1" "arg_ymin three_args = 0"
    "arg_ymax three_args = 1" "arg_zmin three_args = 0" "arg_zmax three_args = 1"
    "arg_nsites three_args = 3" "arg_with_vertices three_args = True"
    "arg_with_sampling three_args = False" "arg_n_samples three_args = 0"
    "arg_wall_str three_args = []" "length (arg_points three_args) = 9"
    "env_double_ops three_env = exact_ops" "env_cells three_env = three_cells"
    by (simp_all add: three_args_def three_env_def)
  show ?thesis
    unfolding compute_cells_def a g three_initial_state
    using three_cell_loop by (simp add: add_walls_def fits_small)
qed

lemma three_symmetrize:
  "symmetrize [[1, 2], [0, 2, -1, -2, -3], [0, 1, -1]] = Inr [[1, 2], [0, 2, -1, -2, -3], [0, 1, -1]]"
  by code_simp

lemma three_fill_neighbours:
  "fill_matrix (enough_memory 4) sizeof_int neighbour_pad 77 3 5
     [[1, 2], [0, 2, -1, -2, -3], [0, 1, -1]] =
     Inr (Some [1, 2, -10, -10, -10,  0, 2, -1, -2, -3,  0, 1, -1, -10, -10])"
proof -
  have m: "malloc (enough_memory 4) sizeof_int (size_mul (size_mul sizeof_int 3) 5) (77 :: int) =
      Some [77, 77, 77, 77, 77, 77, 77, 77, 77, 77, 77, 77, 77, 77, 77]"
    by (simp add: malloc_def enough_memory_def size_mul_def sizeof_int_def replicate_small)
  show ?thesis
    unfolding fill_matrix_def m
    by (simp add: pack_loop.simps buf_copy_def buf_fill_def std_copy_def std_fill_def fits_small
        replicate_small replicate_3 neighbour_pad_def)
qed

lemma three_fill_vertices:
  "fill_matrix (enough_memory 5) sizeof_double None (Some 0) 3 12
     (map (map Some) [[0,0,0, 1,0,0, 0,1,0], [0,0,0, 1,0,0, 0,1,0, 0,0,1], [1,1,1 :: real]]) =
     Inr (Some
       [Some 0, Some 0, Some 0, Some 1, Some 0, Some 0, Some 0, Some 1, Some 0,
          None, None, None,
        Some 0, Some 0, Some 0, Some 1, Some 0, Some 0, Some 0, Some 1, Some 0,
          Some 0, Some 0, Some 1,
        Some 1, Some 1, Some 1, None, None, None, None, None, None, None, None, None])"
proof -
  have m: "malloc (enough_memory 5) sizeof_double (size_mul (size_mul sizeof_double 3) 12)
        (Some (0 :: real)) = Some (replicate 36 (Some 0))"
    by (simp add: malloc_def enough_memory_def size_mul_def sizeof_double_def)
  show ?thesis
    unfolding fill_matrix_def m replicate_small
    by (simp add: pack_loop.simps buf_copy_def buf_fill_def std_copy_def std_fill_def fits_small
        replicate_small replicate_3)
qed

lemma three_row_widths:
  "row_width [[1, 2], [0, 2, -1, -2, -3], [0, 1, -1 :: int]] = Inr 5"
  "row_width (map (map Some)
     [[0,0,0, 1,0,0, 0,1,0], [0,0,0, 1,0,0, 0,1,0, 0,0,1], [1,1,1 :: real]]) = Inr 12"
  by (simp_all add: row_width_def max_size_def max_element_def size_cmp_def fits_small)

lemma three_hand_over:
  "hand_over three_args three_env three_state null_outputs = (Inr (), three_outputs)"
proof -
  have n: "nat (arg_nsites three_args) = 3" by (simp add: three_args_def)
  have l: "ls_n_list three_state = [[1, 2], [0, 2, -1, -2, -3], [0, 1, -1]]"
    "ls_vertices_list three_state =
       [[0,0,0, 1,0,0, 0,1,0], [0,0,0, 1,0,0, 0,1,0, 0,0,1], [1,1,1]]"
    by (simp_all add: three_state_def)
  have e: "env_malloc_ok three_env = enough_memory" "env_junk_int three_env = 77"
    "env_junk_vertex three_env = Some 0"
    by (simp_all add: three_env_def)
  have w: "arg_with_vertices three_args" by (simp add: three_args_def)
  have v: "pack_vertices three_args three_env three_state out =
      (Inr (), out\<lparr>out_max_nv := 12, out_vertices := Some
               [Some 0, Some 0, Some 0, Some 1, Some 0, Some 0, Some 0, Some 1, Some 0,
                  None, None, None,
                Some 0, Some 0, Some 0, Some 1, Some 0, Some 0, Some 0, Some 1, Some 0,
                  Some 0, Some 0, Some 1,
                Some 1, Some 1, Some 1, None, None, None, None, None, None, None, None, None]\<rparr>)"
    for out
    unfolding pack_vertices_def l n e
    using w three_row_widths(2) three_fill_vertices by simp
  have "hand_over three_args three_env three_state null_outputs =
      (Inr (), null_outputs\<lparr>out_max_nn := 5, out_max_nv := 12,
             out_vertices := Some
               [Some 0, Some 0, Some 0, Some 1, Some 0, Some 0, Some 0, Some 1, Some 0,
                  None, None, None,
                Some 0, Some 0, Some 0, Some 1, Some 0, Some 0, Some 0, Some 1, Some 0,
                  Some 0, Some 0, Some 1,
                Some 1, Some 1, Some 1, None, None, None, None, None, None, None, None, None],
             out_volumes := ls_vols three_state,
             out_bb_min := ls_bb_m three_state,
             out_bb_max := ls_bb_M three_state,
             out_neighbours := Some [1, 2, -10, -10, -10,  0, 2, -1, -2, -3,  0, 1, -1, -10, -10],
             out_sample_points := ls_spoints three_state\<rparr>)"
    unfolding hand_over_def l n e
    using three_symmetrize three_row_widths(1) three_fill_neighbours by (simp add: v)
  then show ?thesis
    by (simp add: three_outputs_def null_outputs_def three_state_def)
qed

lemma three_wrap:
  "hyperion_voropp_wrap three_args three_env null_outputs = Some (Inr (None, three_outputs))"
  using three_compute_cells three_hand_over by (simp add: wrap_success)



lemma no_site_compute_cells: "compute_cells no_site_args no_site_env = Some (Inr no_site_state)"
proof -
  have g: "block_grid exact_ops 0 1 0 1 0 1 0 = Inr (1, 1, 1)"
    by (rule unit_cube_block_grid) simp_all
  have a: "arg_xmin no_site_args = 0" "arg_xmax no_site_args = 1" "arg_ymin no_site_args = 0"
    "arg_ymax no_site_args = 1" "arg_zmin no_site_args = 0" "arg_zmax no_site_args = 1"
    "arg_nsites no_site_args = 0" "arg_wall_str no_site_args = []"
    "env_double_ops no_site_env = exact_ops" "env_cells no_site_env = []"
    by (simp_all add: no_site_args_def no_site_env_def three_args_def three_env_def)
  have i: "initial_state no_site_args no_site_env = no_site_state"
    by (simp add: initial_state_def no_site_args_def no_site_env_def three_args_def three_env_def
        no_site_state_def malloc_def enough_memory_def size_mul_def)
  show ?thesis
    unfolding compute_cells_def a g i by (simp add: add_walls_def)
qed









subsection \<open>The dense matrices\<close>

text \<open>
  C8. When the call returns null, \<open>*max_nn\<close> is the greatest length of a neighbour list
  after the symmetry pass, and row \<open>i\<close> of the neighbour matrix is the list of site \<open>i\<close>,
  in order, followed by -10 up to the width \<open>*max_nn\<close>. When vertices were asked for,
  \<open>*max_nv\<close> is the greatest number of vertex coordinates of a cell and row \<open>i\<close> of the
  vertex matrix is the coordinates of cell \<open>i\<close> followed by NaN up to that width. The
  matrix is what the returned pointer addresses; the pointer can be null only when the
  width is 0, so that the matrix has no entry.
\<close>

theorem dense_matrices:
  assumes "hyperion_voropp_wrap a env out = Some (Inr (None, out'))"
  shows "\<exists>s n_list'.
      compute_cells a env = Some (Inr s) \<and>
      symmetrize (ls_n_list s) = Inr n_list' \<and>
      length n_list' = nat (arg_nsites a) \<and>
      out_max_nn out' = int (Max (length ` set n_list')) \<and>
      length (buffer_cells (out_neighbours out')) =
        nat (arg_nsites a) * Max (length ` set n_list') \<and>
      (\<forall>i < nat (arg_nsites a).
         row_of (Max (length ` set n_list')) (buffer_cells (out_neighbours out')) i =
           n_list' ! i @ replicate (Max (length ` set n_list') - length (n_list' ! i)) neighbour_pad) \<and>
      (out_neighbours out' = None \<longrightarrow> Max (length ` set n_list') = 0) \<and>
      (arg_with_vertices a \<longrightarrow>
         out_max_nv out' = int (Max (length ` set (ls_vertices_list s))) \<and>
         length (buffer_cells (out_vertices out')) =
           nat (arg_nsites a) * Max (length ` set (ls_vertices_list s)) \<and>
         (\<forall>i < nat (arg_nsites a).
            row_of (Max (length ` set (ls_vertices_list s))) (buffer_cells (out_vertices out')) i =
              map Some (ls_vertices_list s ! i) @
              replicate (Max (length ` set (ls_vertices_list s)) - length (ls_vertices_list s ! i))
                None) \<and>
         (out_vertices out' = None \<longrightarrow> Max (length ` set (ls_vertices_list s)) = 0))"
proof -
  from assms obtain s where c: "compute_cells a env = Some (Inr s)"
    and h: "hand_over a env s out = (Inr (), out')"
    by (auto simp: wrap_success)
  note l = compute_cells_lengths[OF c]
  note v = hand_over_result(3)[OF h l(2) l(3)]
  from hand_over_result(1)[OF h l(2) l(3)] show ?thesis
  proof (elim exE conjE)
    fix nl
    assume sy: "symmetrize (ls_n_list s) = Inr nl"
      and ln: "length nl = nat (arg_nsites a)"
      and mx: "out_max_nn out' = int (Max (length ` set nl))"
      and lb: "length (buffer_cells (out_neighbours out')) =
          nat (arg_nsites a) * Max (length ` set nl)"
      and rows: "\<forall>i < nat (arg_nsites a).
         row_of (Max (length ` set nl)) (buffer_cells (out_neighbours out')) i =
           nl ! i @ replicate (Max (length ` set nl) - length (nl ! i)) neighbour_pad"
      and nn: "out_neighbours out' = None \<longrightarrow> Max (length ` set nl) = 0"
    have vx: "arg_with_vertices a \<longrightarrow>
         out_max_nv out' = int (Max (length ` set (ls_vertices_list s))) \<and>
         length (buffer_cells (out_vertices out')) =
           nat (arg_nsites a) * Max (length ` set (ls_vertices_list s)) \<and>
         (\<forall>i < nat (arg_nsites a).
            row_of (Max (length ` set (ls_vertices_list s))) (buffer_cells (out_vertices out')) i =
              map Some (ls_vertices_list s ! i) @
              replicate (Max (length ` set (ls_vertices_list s)) - length (ls_vertices_list s ! i))
                None) \<and>
         (out_vertices out' = None \<longrightarrow> Max (length ` set (ls_vertices_list s)) = 0)"
      using v by simp
    show ?thesis
      by (intro exI[of _ s] exI[of _ nl] conjI c sy ln mx lb rows nn vx)
  qed
qed

theorem dense_matrices_witness:
  "hyperion_voropp_wrap three_args three_env null_outputs = Some (Inr (None, three_outputs)) \<and>
   map length [[1, 2], [0, 2, -1, -2, -3], [0, 1, -1 :: int]] = [2, 5, 3] \<and>
   out_max_nn three_outputs = 5 \<and>
   length (buffer_cells (out_neighbours three_outputs)) = 3 * 5 \<and>
   row_of 5 (buffer_cells (out_neighbours three_outputs)) 0 = [1, 2] @ replicate 3 neighbour_pad \<and>
   row_of 5 (buffer_cells (out_neighbours three_outputs)) 1 = [0, 2, -1, -2, -3] \<and>
   row_of 5 (buffer_cells (out_neighbours three_outputs)) 2 = [0, 1, -1] @ replicate 2 neighbour_pad \<and>
   out_max_nv three_outputs = 12 \<and>
   row_of 12 (buffer_cells (out_vertices three_outputs)) 2 = map Some [1, 1, 1] @ replicate 9 None"
proof -
  from dense_matrices[OF three_wrap] show ?thesis
  proof (elim exE conjE)
  fix s nl
  assume c: "compute_cells three_args three_env = Some (Inr s)"
    and sy: "symmetrize (ls_n_list s) = Inr nl"
    and "length nl = nat (arg_nsites three_args)"
    and mx: "out_max_nn three_outputs = int (Max (length ` set nl))"
    and ln: "length (buffer_cells (out_neighbours three_outputs)) =
        nat (arg_nsites three_args) * Max (length ` set nl)"
    and rows: "\<forall>i < nat (arg_nsites three_args).
         row_of (Max (length ` set nl)) (buffer_cells (out_neighbours three_outputs)) i =
           nl ! i @ replicate (Max (length ` set nl) - length (nl ! i)) neighbour_pad"
    and "out_neighbours three_outputs = None \<longrightarrow> Max (length ` set nl) = 0"
    and vx: "arg_with_vertices three_args \<longrightarrow>
         out_max_nv three_outputs = int (Max (length ` set (ls_vertices_list s))) \<and>
         length (buffer_cells (out_vertices three_outputs)) =
           nat (arg_nsites three_args) * Max (length ` set (ls_vertices_list s)) \<and>
         (\<forall>i < nat (arg_nsites three_args).
            row_of (Max (length ` set (ls_vertices_list s)))
                (buffer_cells (out_vertices three_outputs)) i =
              map Some (ls_vertices_list s ! i) @
              replicate (Max (length ` set (ls_vertices_list s)) - length (ls_vertices_list s ! i))
                None) \<and>
         (out_vertices three_outputs = None \<longrightarrow> Max (length ` set (ls_vertices_list s)) = 0)"
  have s: "s = three_state" using c three_compute_cells by simp
  have nl: "nl = [[1, 2], [0, 2, -1, -2, -3], [0, 1, -1]]"
    using sy three_symmetrize by (simp add: s three_state_def)
  have m: "Max (length ` set nl) = 5" by (simp add: nl)
  have n: "nat (arg_nsites three_args) = 3" by (simp add: three_args_def)
  have l: "length (buffer_cells (out_neighbours three_outputs)) = 3 * 5"
    using ln unfolding m n .
  have r0: "row_of 5 (buffer_cells (out_neighbours three_outputs)) 0 = [1, 2] @ replicate 3 neighbour_pad"
    using rows[rule_format, of 0] unfolding m by (simp add: n nl)
  have r1: "row_of 5 (buffer_cells (out_neighbours three_outputs)) 1 = [0, 2, -1, -2, -3]"
    using rows[rule_format, of 1] unfolding m by (simp add: n nl)
  have r2: "row_of 5 (buffer_cells (out_neighbours three_outputs)) 2 = [0, 1, -1] @ replicate 2 neighbour_pad"
    using rows[rule_format, of 2] unfolding m by (simp add: n nl)
  have wv: "arg_with_vertices three_args" by (simp add: three_args_def)
  have mv: "Max (length ` set (ls_vertices_list s)) = 12" by (simp add: s three_state_def)
  from vx wv have
    vm: "out_max_nv three_outputs = int (Max (length ` set (ls_vertices_list s)))"
    and vr: "\<forall>i < nat (arg_nsites three_args).
               row_of (Max (length ` set (ls_vertices_list s)))
                   (buffer_cells (out_vertices three_outputs)) i =
                 map Some (ls_vertices_list s ! i) @
                 replicate (Max (length ` set (ls_vertices_list s)) - length (ls_vertices_list s ! i))
                   None"
    by blast+
  have v2: "row_of 12 (buffer_cells (out_vertices three_outputs)) 2 =
      map Some [1, 1, 1] @ replicate 9 None"
    using vr[rule_format, of 2] unfolding mv by (simp add: n s three_state_def)
  have "out_max_nn three_outputs = 5" using mx m by simp
  moreover have "out_max_nv three_outputs = 12" using vm mv by simp
  ultimately show ?thesis
    using three_wrap l r0 r1 r2 v2 by simp
  qed
qed

subsection \<open>What the call reports\<close>




subsection \<open>At least one site\<close>

text \<open>
  C10. The widest row is read through the result of \<open>std::max_element\<close>, which is the
  \<open>end\<close> iterator when there is no row: with no site the behaviour of the call is
  undefined once the cells are computed, and nothing in the code tests for it. With at
  least one site the two reductions are defined whenever they are reached: the widest
  neighbour list exists once the symmetry pass has ended, and so does the widest list of
  vertex coordinates when vertices were asked for.
\<close>

theorem needs_one_site:
  "(rows \<noteq> [] \<longrightarrow> max_size rows = Inr (Max (length ` set rows))) \<and>
   (rows = [] \<longrightarrow> max_size rows = Inl UndefinedBehaviour) \<and>
   (compute_cells a env = Some (Inr s) \<and> arg_nsites a = 0 \<longrightarrow>
      hyperion_voropp_wrap a env out = Some (Inl UndefinedBehaviour)) \<and>
   (compute_cells a env = Some (Inr s) \<and> 1 \<le> arg_nsites a \<and>
    symmetrize (ls_n_list s) = Inr n_list' \<longrightarrow>
      max_size n_list' = Inr (Max (length ` set n_list')) \<and>
      (arg_with_vertices a \<longrightarrow>
         max_size (map (map Some) (ls_vertices_list s)) =
           Inr (Max (length ` set (ls_vertices_list s)))))"
proof -
  have z: "hyperion_voropp_wrap a env out = Some (Inl UndefinedBehaviour)"
    if c: "compute_cells a env = Some (Inr s)" and n: "arg_nsites a = 0"
  proof -
    have "ls_n_list s = []" using compute_cells_lengths(2)[OF c] n by simp
    from hand_over_no_sites[OF this, of a env out] c show ?thesis
      by (cases "hand_over a env s out") (simp add: wrap_cases)
  qed
  have p: "max_size n_list' = Inr (Max (length ` set n_list')) \<and>
      (arg_with_vertices a \<longrightarrow>
         max_size (map (map Some) (ls_vertices_list s)) =
           Inr (Max (length ` set (ls_vertices_list s))))"
    if c: "compute_cells a env = Some (Inr s)" and n: "1 \<le> arg_nsites a"
      and sy: "symmetrize (ls_n_list s) = Inr n_list'"
  proof -
    note l = compute_cells_lengths[OF c]
    have "length n_list' = nat (arg_nsites a)" using symmetrize_mirrored(1)[OF sy] l(2) by simp
    then have "n_list' \<noteq> []" using n by auto
    then have a: "max_size n_list' = Inr (Max (length ` set n_list'))"
      by (rule max_size_nonempty)
    have b: "max_size (map (map Some) (ls_vertices_list s)) =
           Inr (Max (length ` set (ls_vertices_list s)))" if wv: "arg_with_vertices a"
    proof -
      have "map (map Some) (ls_vertices_list s) \<noteq> []" using l(3) wv n by auto
      from max_size_nonempty[OF this] show ?thesis by (simp add: image_image)
    qed
    from a b show ?thesis by blast
  qed
  show ?thesis
    using max_size_nonempty[of rows] max_size_empty z p by blast
qed

theorem needs_one_site_witness:
  "([] :: int list list) = [] \<and> max_size ([] :: int list list) = Inl UndefinedBehaviour \<and>
   [[1, 2], [0 :: int]] \<noteq> [] \<and> max_size [[1, 2], [0 :: int]] = Inr 2 \<and>
   compute_cells no_site_args no_site_env = Some (Inr no_site_state) \<and>
   arg_nsites no_site_args = 0 \<and>
   hyperion_voropp_wrap no_site_args no_site_env null_outputs = Some (Inl UndefinedBehaviour) \<and>
   compute_cells three_args three_env = Some (Inr three_state) \<and>
   1 \<le> arg_nsites three_args \<and>
   symmetrize (ls_n_list three_state) = Inr [[1, 2], [0, 2, -1, -2, -3], [0, 1, -1]] \<and>
   max_size [[1, 2], [0, 2, -1, -2, -3], [0, 1, -1 :: int]] = Inr 5 \<and>
   arg_with_vertices three_args \<and>
   max_size (map (map Some) (ls_vertices_list three_state)) = Inr 12"
proof -
  have e: "max_size ([] :: int list list) = Inl UndefinedBehaviour"
    using needs_one_site[of "[] :: int list list"] by blast
  have ne: "[[1, 2], [0 :: int]] \<noteq> []" by simp
  have "max_size [[1, 2], [0 :: int]] = Inr (Max (length ` set [[1, 2], [0 :: int]]))"
    using needs_one_site[of "[[1, 2], [0 :: int]]"] ne by blast
  then have m: "max_size [[1, 2], [0 :: int]] = Inr 2" by simp
  have n0: "arg_nsites no_site_args = 0" by (simp add: no_site_args_def)
  have z: "hyperion_voropp_wrap no_site_args no_site_env null_outputs = Some (Inl UndefinedBehaviour)"
    using needs_one_site[of "[] :: int list list" no_site_args no_site_env no_site_state null_outputs]
      no_site_compute_cells n0 by blast
  have n3: "1 \<le> arg_nsites three_args" by (simp add: three_args_def)
  have wv: "arg_with_vertices three_args" by (simp add: three_args_def)
  have sy: "symmetrize (ls_n_list three_state) = Inr [[1, 2], [0, 2, -1, -2, -3], [0, 1, -1]]"
    using three_symmetrize by (simp add: three_state_def)
  from needs_one_site[of "[] :: int list list" three_args three_env three_state null_outputs
      "[[1, 2], [0, 2, -1, -2, -3], [0, 1, -1]]"] three_compute_cells n3 sy wv
  have "max_size [[1, 2], [0, 2, -1, -2, -3], [0, 1, -1 :: int]] =
      Inr (Max (length ` set [[1, 2], [0, 2, -1, -2, -3], [0, 1, -1 :: int]])) \<and>
    max_size (map (map Some) (ls_vertices_list three_state)) =
      Inr (Max (length ` set (ls_vertices_list three_state)))"
    by blast
  then have p: "max_size [[1, 2], [0, 2, -1, -2, -3], [0, 1, -1 :: int]] = Inr 5"
    and q: "max_size (map (map Some) (ls_vertices_list three_state)) = Inr 12"
    by (simp_all add: three_state_def)
  show ?thesis
    using e ne m no_site_compute_cells n0 z three_compute_cells n3 sy p wv q by blast
qed

end
